theory Spec2Isabelle
  imports Main "HOL-Library.AList" "HOL-Library.Log_Nat"
begin

section \<open>Plain objects used as dictionaries\<close>

text \<open>
  A plain JavaScript object is modelled by the list of its own enumerable properties in the
  order in which \<open>Object.keys\<close> and \<open>Object.entries\<close> enumerate them. The keys of an object
  are pairwise different; the theorems that need it assume it (\<open>wf_config\<close> below). Where
  the program adds a property the model puts it last; JavaScript enumerates keys that are
  array indices first, but no statement below observes the order of the keys of a result:
  two objects are structurally equal when they have the same properties with structurally
  equal values, whatever the order, and results are compared through \<open>map_of\<close>.
\<close>

type_synonym 'v obj = "(string \<times> 'v) list"

definition Object_keys :: "'v obj \<Rightarrow> string list" where
  "Object_keys ob = map fst ob"

definition Object_entries :: "'v obj \<Rightarrow> (string \<times> 'v) list" where
  "Object_entries ob = ob"

text \<open>
  The object spread \<open>{...a, ...b}\<close>: the properties of \<open>a\<close>, then those of \<open>b\<close>, each
  replacing a property of the same name in place or coming last (\<open>AList.update\<close>). A
  spread of \<open>undefined\<close> contributes nothing, so an absent object is spread as \<open>[]\<close>.
\<close>

definition spread :: "'v obj \<Rightarrow> 'v obj \<Rightarrow> 'v obj" where
  "spread a b = fold (\<lambda>(k, v) acc. AList.update k v acc) b a"

definition spread_opt :: "'v obj option \<Rightarrow> 'v obj" where
  "spread_opt a = (case a of None \<Rightarrow> [] | Some ob \<Rightarrow> ob)"

section \<open>Data model (types/index.d.ts)\<close>

text \<open>
  Metadata objects are handled by the merger as untyped objects (\<open>any\<close>); a metadata object
  is a dictionary from field names to values.
\<close>

datatype mval = MStr string | MNum int | MStrs "string list"

type_synonym metadata_obj = "mval obj"

text \<open>
  \<open>MCPServiceConfig\<close>. Every field is optional in the model: \<open>None\<close> is the field read as
  \<open>undefined\<close>, whether the property is missing or holds \<open>undefined\<close> (a descriptor read
  from JSON has no property that holds \<open>undefined\<close>). The declared type makes \<open>command\<close>
  required, but the merger never checks it, and it reads the field of whatever object the
  lookup of a service name returns.
\<close>

record MCPServiceConfig =
  command :: "string option"
  args :: "string list option"
  env :: "string obj option"
  disabled :: "bool option"
  cwd :: "string option"
  timeout :: "int option"
  metadata :: "metadata_obj option"

record MCPConfig =
  mcpServers :: "MCPServiceConfig obj"
  version :: "string option"
  config_metadata :: "metadata_obj option"
  schema :: "string option"

section \<open>Equality utilities\<close>

text \<open>
  \<open>areArraysEqual\<close>: an array, even an empty one, is truthy, so \<open>!arr\<close> holds exactly for
  an absent array. \<open>arr1.every((item, index) => item === arr2[index])\<close> runs over the
  indices of \<open>arr1\<close>; the lengths are equal at that point.
\<close>

definition areArraysEqual :: "string list option \<Rightarrow> string list option \<Rightarrow> bool" where
  "areArraysEqual arr1 arr2 =
     (case (arr1, arr2) of
        (None, None) \<Rightarrow> True
      | (None, Some _) \<Rightarrow> False
      | (Some _, None) \<Rightarrow> False
      | (Some a1, Some a2) \<Rightarrow>
          if length a1 \<noteq> length a2 then False
          else list_all (\<lambda>index. a1 ! index = a2 ! index) [0..<length a1])"

text \<open>
  \<open>areObjectsEqual\<close>: \<open>keys1.every(key => obj1[key] === obj2[key])\<close>. The key is an own
  property of \<open>obj1\<close> with a string value; \<open>obj2[key]\<close> is strictly equal to it only when
  \<open>obj2\<close> has the key as an own property with the same string (a missing key reads as
  \<open>undefined\<close> or as a function inherited from \<open>Object.prototype\<close>, never as a string).
\<close>

definition areObjectsEqual :: "string obj option \<Rightarrow> string obj option \<Rightarrow> bool" where
  "areObjectsEqual obj1 obj2 =
     (case (obj1, obj2) of
        (None, None) \<Rightarrow> True
      | (None, Some _) \<Rightarrow> False
      | (Some _, None) \<Rightarrow> False
      | (Some o1, Some o2) \<Rightarrow>
          if length (Object_keys o1) \<noteq> length (Object_keys o2) then False
          else list_all (\<lambda>key. map_of o1 key = map_of o2 key) (Object_keys o1))"

definition areServicesEqual :: "MCPServiceConfig \<Rightarrow> MCPServiceConfig \<Rightarrow> bool" where
  "areServicesEqual service1 service2 =
     (command service1 = command service2 \<and>
      areArraysEqual (args service1) (args service2) \<and>
      areObjectsEqual (env service1) (env service2) \<and>
      disabled service1 = disabled service2)"

section \<open>Version comparison\<close>

text \<open>
  \<open>version.split('.')\<close>: the segments between the dots; a string without a dot is its own
  single segment, and the empty string splits into one empty segment.
\<close>

fun split_from :: "char \<Rightarrow> string \<Rightarrow> string \<Rightarrow> string list" where
  "split_from sep acc [] = [rev acc]"
| "split_from sep acc (c # cs) =
     (if c = sep then rev acc # split_from sep [] cs else split_from sep (c # acc) cs)"

definition String_split :: "char \<Rightarrow> string \<Rightarrow> string list" where
  "String_split sep s = split_from sep [] s"

text \<open>
  \<open>Number(segment)\<close> is the conversion \<open>StringToNumber\<close> of the language followed by the
  rounding to a double. A number is \<open>NaN\<close>, an infinity or a rational (the doubles are
  rationals; \<open>-0\<close> is not told from \<open>0\<close>, which compare equal and are both falsy). The
  strings of the model are lists of 8-bit characters, so the white space that is trimmed is
  the white space and the line terminators below 256.
\<close>

datatype jsnum = NaN | NegInf | Num rat | PosInf

definition is_digit :: "char \<Rightarrow> bool" where
  "is_digit c = (c \<in> set ''0123456789'')"

definition digit_val :: "char \<Rightarrow> int" where
  "digit_val c = int (of_char c) - 48"

definition decimal :: "string \<Rightarrow> int" where
  "decimal s = foldl (\<lambda>n c. 10 * n + digit_val c) 0 s"

text \<open>
  The Number value for a rational \<open>x\<close>: the double nearest to \<open>x\<close>, the one with an even
  significand when two are as near. With \<open>2^e \<le> |x| < 2^(e+1)\<close> (\<open>binade\<close>) the doubles
  around \<open>|x|\<close> are the multiples of \<open>2^(e-52)\<close>, and of \<open>2^(-1074)\<close> below \<open>2^(-1022)\<close>; a
  result that reaches \<open>2^1024\<close>, whose integer part has more than 1024 binary digits, is
  an infinity. (For a decimal literal of more than 20 significant digits the language lets
  an implementation round an approximation of the value; the model rounds the value
  itself, as the engines do.)
\<close>

definition pow_int :: "rat \<Rightarrow> int \<Rightarrow> rat" where
  "pow_int b k = (if 0 \<le> k then b ^ nat k else 1 / b ^ nat (- k))"

definition binade :: "rat \<Rightarrow> int" where
  "binade x =
     (case quotient_of x of
        (a, b) \<Rightarrow> (let d = bitlen a - bitlen b in if pow_int 2 d \<le> x then d else d - 1))"

definition round_half_even :: "rat \<Rightarrow> int" where
  "round_half_even x =
     (let f = \<lfloor>x\<rfloor>; r = x - of_int f
      in if r < 1 / 2 then f else if 1 / 2 < r then f + 1 else if even f then f else f + 1)"

definition Number_value :: "rat \<Rightarrow> jsnum" where
  "Number_value x =
     (if x = 0 then Num 0
      else (let a = \<bar>x\<bar>;
                q = pow_int 2 (max (binade a) (- 1022) - 52);
                y = of_int (round_half_even (a / q)) * q
            in if 1024 < bitlen \<lfloor>y\<rfloor> then (if 0 < x then PosInf else NegInf)
               else Num (if 0 < x then y else - y)))"

text \<open>
  The grammar of \<open>StringToNumber\<close>: white space around the literal is dropped and the empty
  string is \<open>0\<close>; the literal is a binary, octal or hexadecimal integer with its prefix and
  no sign, or a decimal literal with an optional sign: \<open>Infinity\<close>, or digits with an
  optional fraction and an optional exponent. Anything else is \<open>NaN\<close>.
\<close>

definition is_space :: "char \<Rightarrow> bool" where
  "is_space c = (of_char c \<in> {9, 10, 11, 12, 13, 32, 160 :: nat})"

definition trim :: "string \<Rightarrow> string" where
  "trim s = rev (dropWhile is_space (rev (dropWhile is_space s)))"

definition radix_val :: "char \<Rightarrow> nat" where
  "radix_val c =
     (let n = of_char c :: nat
      in if 48 \<le> n \<and> n \<le> 57 then n - 48
         else if 97 \<le> n \<and> n \<le> 102 then n - 87
         else if 65 \<le> n \<and> n \<le> 70 then n - 55
         else 16)"

definition radix_digits :: "nat \<Rightarrow> string \<Rightarrow> jsnum" where
  "radix_digits b s =
     (if s \<noteq> [] \<and> list_all (\<lambda>c. radix_val c < b) s
      then Number_value (of_int (foldl (\<lambda>n c. int b * n + int (radix_val c)) 0 s))
      else NaN)"

definition radix_literal :: "string \<Rightarrow> jsnum option" where
  "radix_literal s =
     (case s of
        c # p # ds \<Rightarrow>
          if c \<noteq> CHR ''0'' then None
          else if p = CHR ''b'' \<or> p = CHR ''B'' then Some (radix_digits 2 ds)
          else if p = CHR ''o'' \<or> p = CHR ''O'' then Some (radix_digits 8 ds)
          else if p = CHR ''x'' \<or> p = CHR ''X'' then Some (radix_digits 16 ds)
          else None
      | _ \<Rightarrow> None)"

definition split_at :: "(char \<Rightarrow> bool) \<Rightarrow> string \<Rightarrow> string \<times> string option" where
  "split_at p s =
     (takeWhile (\<lambda>c. \<not> p c) s,
      case dropWhile (\<lambda>c. \<not> p c) s of [] \<Rightarrow> None | c # r \<Rightarrow> Some r)"

definition decimal_digits :: "string \<Rightarrow> int option" where
  "decimal_digits s = (if s \<noteq> [] \<and> list_all is_digit s then Some (decimal s) else None)"

definition signed_integer :: "string \<Rightarrow> int option" where
  "signed_integer s =
     (case s of
        [] \<Rightarrow> None
      | c # r \<Rightarrow>
          if c = CHR ''+'' then decimal_digits r
          else if c = CHR ''-'' then map_option uminus (decimal_digits r)
          else decimal_digits s)"

definition unsigned_decimal :: "string \<Rightarrow> jsnum" where
  "unsigned_decimal s =
     (if s = ''Infinity'' then PosInf
      else (case split_at (\<lambda>c. c = CHR ''e'' \<or> c = CHR ''E'') s of
              (mantissa, exponentPart) \<Rightarrow>
                (case split_at (\<lambda>c. c = CHR ''.'') mantissa of
                   (intDigits, fractionPart) \<Rightarrow>
                     (let fracDigits = (case fractionPart of None \<Rightarrow> [] | Some f \<Rightarrow> f);
                          exponent = (case exponentPart of None \<Rightarrow> Some 0
                                      | Some e \<Rightarrow> signed_integer e)
                      in if list_all is_digit intDigits \<and> list_all is_digit fracDigits \<and>
                            intDigits @ fracDigits \<noteq> []
                         then (case exponent of
                                 None \<Rightarrow> NaN
                               | Some e \<Rightarrow>
                                   Number_value (of_int (decimal (intDigits @ fracDigits)) *
                                     pow_int 10 (e - int (length fracDigits))))
                         else NaN))))"

definition negate :: "jsnum \<Rightarrow> jsnum" where
  "negate v = (case v of NaN \<Rightarrow> NaN | NegInf \<Rightarrow> PosInf | Num x \<Rightarrow> Num (- x) | PosInf \<Rightarrow> NegInf)"

definition Number_str :: "string \<Rightarrow> jsnum" where
  "Number_str s =
     (let t = trim s
      in case t of
           [] \<Rightarrow> Num 0
         | c # r \<Rightarrow>
             (case radix_literal t of
                Some v \<Rightarrow> v
              | None \<Rightarrow>
                  if c = CHR ''+'' then unsigned_decimal r
                  else if c = CHR ''-'' then negate (unsigned_decimal r)
                  else unsigned_decimal t))"

text \<open>\<open>a < b\<close> on numbers: false when either is \<open>NaN\<close>.\<close>

definition js_less :: "jsnum \<Rightarrow> jsnum \<Rightarrow> bool" where
  "js_less a b =
     (case a of
        NaN \<Rightarrow> False
      | NegInf \<Rightarrow> (case b of Num _ \<Rightarrow> True | PosInf \<Rightarrow> True | _ \<Rightarrow> False)
      | Num x \<Rightarrow> (case b of Num y \<Rightarrow> x < y | PosInf \<Rightarrow> True | _ \<Rightarrow> False)
      | PosInf \<Rightarrow> False)"

text \<open>
  \<open>parts[i] || 0\<close>: an index past the end reads \<open>undefined\<close>, and \<open>undefined\<close>, \<open>NaN\<close>
  and \<open>0\<close> are all replaced by \<open>0\<close>.
\<close>

definition part_or_zero :: "jsnum list \<Rightarrow> nat \<Rightarrow> jsnum" where
  "part_or_zero parts i =
     (if i < length parts then (case parts ! i of NaN \<Rightarrow> Num 0 | v \<Rightarrow> v) else Num 0)"

function compareVersions_loop :: "jsnum list \<Rightarrow> jsnum list \<Rightarrow> nat \<Rightarrow> nat \<Rightarrow> int" where
  "compareVersions_loop v1Parts v2Parts maxLength i =
     (if i < maxLength then
        (let v1Part = part_or_zero v1Parts i;
             v2Part = part_or_zero v2Parts i
         in if js_less v2Part v1Part then 1
            else if js_less v1Part v2Part then - 1
            else compareVersions_loop v1Parts v2Parts maxLength (Suc i))
      else 0)"
  by pat_completeness auto
termination
  by (relation "measure (\<lambda>(v1Parts, v2Parts, maxLength, i). maxLength - i)") auto

declare compareVersions_loop.simps [simp del]

definition compareVersions :: "string \<Rightarrow> string \<Rightarrow> int" where
  "compareVersions version1 version2 =
     (let v1Parts = map Number_str (String_split CHR ''.'' version1);
          v2Parts = map Number_str (String_split CHR ''.'' version2);
          maxLength = max (length v1Parts) (length v2Parts)
      in compareVersions_loop v1Parts v2Parts maxLength 0)"

section \<open>The clock\<close>

text \<open>
  \<open>Date.now()\<close> is read from a clock: \<open>clk n\<close> is the value of the \<open>n\<close>-th reading. A function
  that reads the clock takes the number of readings made so far and returns it updated.
\<close>

type_synonym clock = "nat \<Rightarrow> int"

section \<open>Conflicts, options and results\<close>

text \<open>
  The texts of the source's messages are Chinese template literals; each template is a
  constructor here, applied to what the template interpolates. \<open>Overwritten\<close>,
  \<open>SkippedConflict\<close> and \<open>ForcedMerge\<close> are the three warnings of \<open>mergeService\<close>, each
  naming the service; \<open>MergeFailed\<close> is the error of the \<open>catch\<close> block of \<open>mergeConfigs\<close>;
  the last three are the messages of the validator.
\<close>

datatype message =
    Overwritten string
  | SkippedConflict string
  | ForcedMerge string
  | MergeFailed string
  | CommandRequired
  | DescriptionSuggested
  | VersionFormatSuggested

datatype conflict_type = duplicate | different_config | version_mismatch | missing_dependency

text \<open>
  \<open>ConfigConflict\<close>. \<open>conflict_id\<close> holds the two interpolated parts of the identifier
  \<open>conflict_<serviceName>_<Date.now()>\<close>, \<open>description\<close> the service name and the
  conflicting field names its text lists, \<open>conflict_values\<close> the pair \<open>{source, target}\<close>.
\<close>

record ConfigConflict =
  conflict_id :: "string \<times> int"
  serviceName :: string
  conflict_kind :: conflict_type
  sourceConfig :: MCPServiceConfig
  targetConfig :: MCPServiceConfig
  description :: "string \<times> string list"
  path :: string
  conflict_values :: "MCPServiceConfig \<times> MCPServiceConfig"

datatype MergeStrategy = OVERWRITE | SKIP | MERGE | PROMPT

text \<open>
  \<open>MergeOptions\<close>; the optional callback \<open>conflictResolution\<close> is never called by the
  merger and is left out.
\<close>

record MergeOptions =
  strategy :: MergeStrategy
  preserveMetadata :: bool
  createBackup :: bool
  validateResult :: bool

record MergeStats =
  totalServices :: nat
  addedServices :: nat
  updatedServices :: nat
  skippedServices :: nat
  conflictServices :: nat

record MergeResult =
  success :: bool
  config :: "MCPConfig option"
  conflicts :: "ConfigConflict list"
  errors :: "message list"
  warnings :: "message list"
  stats :: MergeStats

text \<open>What \<open>mergeService\<close> returns: \<open>{action, config?, conflict?, warnings?}\<close>.\<close>

datatype merge_action = Add | Update | Skip

record ServiceMergeResult =
  r_action :: merge_action
  r_config :: "MCPServiceConfig option"
  r_conflict :: "ConfigConflict option"
  r_warnings :: "message list option"

section \<open>Reading and writing a service by name\<close>

text \<open>
  \<open>mcpServers[serviceName]\<close> reads through the prototype chain: a name that is not an own
  property but is a property of \<open>Object.prototype\<close> reads as the inherited function (or, for
  \<open>__proto__\<close>, the prototype object), which is truthy and has none of the fields of a
  descriptor and no own enumerable property. Such a value is \<open>no_fields\<close>.
\<close>

definition Object_prototype_names :: "string list" where
  "Object_prototype_names =
     [''constructor'', ''__defineGetter__'', ''__defineSetter__'', ''hasOwnProperty'',
      ''__lookupGetter__'', ''__lookupSetter__'', ''isPrototypeOf'',
      ''propertyIsEnumerable'', ''toString'', ''valueOf'', ''__proto__'',
      ''toLocaleString'']"

definition no_fields :: MCPServiceConfig where
  "no_fields = \<lparr>command = None, args = None, env = None, disabled = None, cwd = None,
     timeout = None, metadata = None\<rparr>"

definition prop_get :: "MCPServiceConfig obj \<Rightarrow> string \<Rightarrow> MCPServiceConfig option" where
  "prop_get ob name =
     (case map_of ob name of
        Some v \<Rightarrow> Some v
      | None \<Rightarrow> if name \<in> set Object_prototype_names then Some no_fields else None)"

text \<open>
  \<open>mcpServers[serviceName] = value\<close> replaces an own property in place and adds a new one
  last. For \<open>__proto__\<close> that is not an own property the assignment runs the setter of
  \<open>Object.prototype\<close>: no own property is created. (The setter replaces the prototype of
  the working object; the model does not follow reads through a replaced prototype.)
\<close>

definition prop_set :: "MCPServiceConfig obj \<Rightarrow> string \<Rightarrow> MCPServiceConfig \<Rightarrow> MCPServiceConfig obj" where
  "prop_set ob name v =
     (if map_of ob name = None \<and> name = ''__proto__'' then ob else AList.update name v ob)"

section \<open>Merging metadata and descriptors\<close>

definition mergeMetadata :: "clock \<Rightarrow> nat \<Rightarrow> metadata_obj option \<Rightarrow> metadata_obj option
    \<Rightarrow> metadata_obj option \<times> nat" where
  "mergeMetadata clk t sourceMeta targetMeta =
     (if sourceMeta = None \<and> targetMeta = None then (None, t)
      else (Some (AList.update ''lastModified'' (MNum (clk t))
                    (spread (spread_opt targetMeta) (spread_opt sourceMeta))),
            Suc t))"

text \<open>
  \<open>{...targetService, ...sourceService}\<close>, field by field: the source's value where the
  source has the field, the target's otherwise.
\<close>

definition override :: "'a option \<Rightarrow> 'a option \<Rightarrow> 'a option" where
  "override src tgt = (case src of Some v \<Rightarrow> Some v | None \<Rightarrow> tgt)"

definition mergeServiceConfigs :: "clock \<Rightarrow> nat \<Rightarrow> MCPServiceConfig \<Rightarrow> MCPServiceConfig \<Rightarrow> bool
    \<Rightarrow> MCPServiceConfig \<times> nat" where
  "mergeServiceConfigs clk t sourceService targetService preserveMeta =
     (let merged = \<lparr>command = override (command sourceService) (command targetService),
                     args = override (args sourceService) (args targetService),
                     env = override (env sourceService) (env targetService),
                     disabled = override (disabled sourceService) (disabled targetService),
                     cwd = override (cwd sourceService) (cwd targetService),
                     timeout = override (timeout sourceService) (timeout targetService),
                     metadata = override (metadata sourceService) (metadata targetService)\<rparr>;
          merged1 = (if env sourceService \<noteq> None \<or> env targetService \<noteq> None
                     then merged\<lparr>env := Some (spread (spread_opt (env targetService))
                                                      (spread_opt (env sourceService)))\<rparr>
                     else merged)
      in if preserveMeta
         then (case mergeMetadata clk t (metadata sourceService) (metadata targetService) of
                 (m, t') \<Rightarrow> (merged1\<lparr>metadata := m\<rparr>, t'))
         else (merged1, t))"

section \<open>Conflict detection\<close>

definition conflicting_fields :: "MCPServiceConfig \<Rightarrow> MCPServiceConfig \<Rightarrow> string list" where
  "conflicting_fields sourceService targetService =
     (if command sourceService \<noteq> command targetService then [''command''] else []) @
     (if \<not> areArraysEqual (args sourceService) (args targetService) then [''args''] else []) @
     (if \<not> areObjectsEqual (env sourceService) (env targetService) then [''env''] else []) @
     (if disabled sourceService \<noteq> disabled targetService then [''disabled''] else [])"

definition detectServiceConflict :: "clock \<Rightarrow> nat \<Rightarrow> string \<Rightarrow> MCPServiceConfig \<Rightarrow> MCPServiceConfig
    \<Rightarrow> ConfigConflict option \<times> nat" where
  "detectServiceConflict clk t name sourceService targetService =
     (let fields = conflicting_fields sourceService targetService
      in if length fields = 0 then (None, t)
         else (Some \<lparr>conflict_id = (name, clk t),
                       serviceName = name,
                       conflict_kind = different_config,
                       sourceConfig = sourceService,
                       targetConfig = targetService,
                       description = (name, fields),
                       path = [],
                       conflict_values = (sourceService, targetService)\<rparr>,
               Suc t))"

section \<open>Merging one service\<close>

definition mergeService :: "clock \<Rightarrow> nat \<Rightarrow> string \<Rightarrow> MCPServiceConfig \<Rightarrow> MCPServiceConfig option
    \<Rightarrow> MergeOptions \<Rightarrow> ServiceMergeResult \<times> nat" where
  "mergeService clk t name sourceService targetService options =
     (case targetService of
        None \<Rightarrow>
          (\<lparr>r_action = Add, r_config = Some sourceService, r_conflict = None,
            r_warnings = None\<rparr>, t)
      | Some tgt \<Rightarrow>
          (case detectServiceConflict clk t name sourceService tgt of
             (None, t1) \<Rightarrow>
               (case mergeServiceConfigs clk t1 sourceService tgt (preserveMetadata options) of
                  (m, t2) \<Rightarrow>
                    (\<lparr>r_action = Update, r_config = Some m, r_conflict = None,
                      r_warnings = None\<rparr>, t2))
           | (Some c, t1) \<Rightarrow>
               (case strategy options of
                  OVERWRITE \<Rightarrow>
                    (\<lparr>r_action = Update, r_config = Some sourceService, r_conflict = None,
                      r_warnings = Some [Overwritten name]\<rparr>, t1)
                | SKIP \<Rightarrow>
                    (\<lparr>r_action = Skip, r_config = None, r_conflict = None,
                      r_warnings = Some [SkippedConflict name]\<rparr>, t1)
                | MERGE \<Rightarrow>
                    (case mergeServiceConfigs clk t1 sourceService tgt (preserveMetadata options) of
                       (m, t2) \<Rightarrow>
                         (\<lparr>r_action = Update, r_config = Some m, r_conflict = None,
                           r_warnings = Some [ForcedMerge name]\<rparr>, t2))
                | PROMPT \<Rightarrow>
                    (\<lparr>r_action = Skip, r_config = None, r_conflict = Some c,
                      r_warnings = None\<rparr>, t1))))"

section \<open>The validator (ConfigurationManager.validateConfig)\<close>

text \<open>
  The merger reaches the validator through the \<open>ConfigurationManager\<close> it was constructed
  with, so \<open>mergeConfigs\<close> takes it as a parameter: a function that returns a
  \<open>ValidationResult\<close> (\<open>Inr\<close>) or throws (\<open>Inl\<close>, with the text of the error). Of each
  validation error and warning the merger reads the message only.
\<close>

record ValidationResult =
  isValid :: bool
  v_errors :: "message list"
  v_warnings :: "message list"

type_synonym validator = "MCPConfig \<Rightarrow> string + ValidationResult"

definition truthy_str :: "string option \<Rightarrow> bool" where
  "truthy_str v = (case v of None \<Rightarrow> False | Some s \<Rightarrow> s \<noteq> [])"

definition truthy_mval :: "mval option \<Rightarrow> bool" where
  "truthy_mval v =
     (case v of None \<Rightarrow> False | Some (MStr s) \<Rightarrow> s \<noteq> [] | Some (MNum n) \<Rightarrow> n \<noteq> 0
      | Some (MStrs _) \<Rightarrow> True)"

text \<open>
  \<open>validateServiceConfig\<close> on a descriptor of the declared type: the checks of the types of
  \<open>args\<close>, \<open>env\<close> and \<open>disabled\<close> cannot fail, so it reports a missing or empty \<open>command\<close>
  and suggests a description.
\<close>

definition validateServiceConfig :: "string \<Rightarrow> MCPServiceConfig \<Rightarrow> message list \<times> message list
    \<Rightarrow> message list \<times> message list" where
  "validateServiceConfig name cfg acc =
     (case acc of (errs, warns) \<Rightarrow>
        (errs @ (if \<not> truthy_str (command cfg) then [CommandRequired] else []),
         warns @ (if \<not> truthy_mval (case metadata cfg of None \<Rightarrow> None
                                       | Some m \<Rightarrow> map_of m ''description'')
                  then [DescriptionSuggested] else [])))"

text \<open>The version test \<open>/^\d+\.\d+(\.\d+)?$/\<close>: two or three non-empty digit segments.\<close>

definition version_format_ok :: "string \<Rightarrow> bool" where
  "version_format_ok v =
     (let segs = String_split CHR ''.'' v
      in (length segs = 2 \<or> length segs = 3) \<and>
         list_all (\<lambda>seg. seg \<noteq> [] \<and> list_all is_digit seg) segs)"

definition validateConfigSync :: "MCPConfig \<Rightarrow> ValidationResult" where
  "validateConfigSync cfg =
     (case fold (\<lambda>(name, svc). validateServiceConfig name svc)
             (Object_entries (mcpServers cfg)) ([], []) of
        (errs, warns) \<Rightarrow>
          \<lparr>isValid = (length errs = 0),
           v_errors = errs,
           v_warnings = warns @
             (case version cfg of
                None \<Rightarrow> []
              | Some v \<Rightarrow> if v \<noteq> [] \<and> \<not> version_format_ok v
                          then [VersionFormatSuggested] else [])\<rparr>)"

definition validateConfig :: validator where
  "validateConfig cfg = Inr (validateConfigSync cfg)"

section \<open>Merging two configurations\<close>

text \<open>
  One turn of the loop over \<open>Object.entries(sourceServices)\<close>. The state is the working
  \<open>mergedConfig.mcpServers\<close>, the result under construction and the clock's count.
  \<open>mergeService\<close> returns a descriptor with every \<open>add\<close> and \<open>update\<close>, so the branch for
  a missing one is never taken.
\<close>

definition record_service_result :: "string \<Rightarrow> ServiceMergeResult
    \<Rightarrow> MCPServiceConfig obj \<times> MergeResult \<Rightarrow> MCPServiceConfig obj \<times> MergeResult" where
  "record_service_result name r st =
     (case st of (servers, result) \<Rightarrow>
        (let (servers1, result1) =
               (case r_conflict r of
                  Some c \<Rightarrow>
                    (servers,
                     result\<lparr>conflicts := conflicts result @ [c],
                            stats := (stats result)\<lparr>conflictServices :=
                                        Suc (conflictServices (stats result))\<rparr>\<rparr>)
                | None \<Rightarrow>
                    (case r_action r of
                       Add \<Rightarrow>
                         ((case r_config r of Some c \<Rightarrow> prop_set servers name c
                           | None \<Rightarrow> servers),
                          result\<lparr>stats := (stats result)\<lparr>addedServices :=
                                        Suc (addedServices (stats result))\<rparr>\<rparr>)
                     | Update \<Rightarrow>
                         ((case r_config r of Some c \<Rightarrow> prop_set servers name c
                           | None \<Rightarrow> servers),
                          result\<lparr>stats := (stats result)\<lparr>updatedServices :=
                                        Suc (updatedServices (stats result))\<rparr>\<rparr>)
                     | Skip \<Rightarrow>
                         (servers,
                          result\<lparr>stats := (stats result)\<lparr>skippedServices :=
                                        Suc (skippedServices (stats result))\<rparr>\<rparr>)));
             result2 = (case r_warnings r of
                          Some ws \<Rightarrow> result1\<lparr>warnings := warnings result1 @ ws\<rparr>
                        | None \<Rightarrow> result1)
         in (servers1, result2)))"

definition mergeConfigs_step :: "clock \<Rightarrow> MergeOptions \<Rightarrow> string \<times> MCPServiceConfig
    \<Rightarrow> MCPServiceConfig obj \<times> MergeResult \<times> nat \<Rightarrow> MCPServiceConfig obj \<times> MergeResult \<times> nat" where
  "mergeConfigs_step clk options entry st =
     (case entry of (name, serviceConfig) \<Rightarrow>
        (case st of (servers, result, t) \<Rightarrow>
           (case mergeService clk t name serviceConfig (prop_get servers name) options of
              (r, t') \<Rightarrow>
                (case record_service_result name r (servers, result) of
                   (servers1, result2) \<Rightarrow> (servers1, result2, t')))))"

definition empty_stats :: MergeStats where
  "empty_stats = \<lparr>totalServices = 0, addedServices = 0, updatedServices = 0,
     skippedServices = 0, conflictServices = 0\<rparr>"

definition merged_version :: "string option \<Rightarrow> string option \<Rightarrow> string option" where
  "merged_version sourceVersion targetVersion =
     (case sourceVersion of
        None \<Rightarrow> targetVersion
      | Some sv \<Rightarrow>
          if sv = [] then targetVersion
          else (case targetVersion of
                  None \<Rightarrow> Some sv
                | Some tv \<Rightarrow> if tv = [] \<or> compareVersions sv tv > 0 then Some sv
                             else Some tv))"

text \<open>
  \<open>mergeConfigs\<close>. The only call of the \<open>try\<close> block that can throw is the one of the
  validator; the \<open>catch\<close> block then records the error, and \<open>config\<close> stays absent and
  \<open>success\<close> false.
\<close>

definition mergeConfigs :: "validator \<Rightarrow> clock \<Rightarrow> nat \<Rightarrow> MCPConfig \<Rightarrow> MCPConfig \<Rightarrow> MergeOptions
    \<Rightarrow> MergeResult \<times> nat" where
  "mergeConfigs validate clk t0 srcConfig tgtConfig options =
     (let result0 = \<lparr>success = False, config = None, conflicts = [], errors = [],
                      warnings = [], stats = empty_stats\<rparr>;
          mergedVersion = merged_version (version srcConfig) (version tgtConfig);
          (mergedMeta, t1) =
             (if preserveMetadata options
              then mergeMetadata clk t0 (config_metadata srcConfig)
                     (config_metadata tgtConfig)
              else (config_metadata tgtConfig, t0));
          sourceServices = mcpServers srcConfig;
          result1 = result0\<lparr>stats := (stats result0)\<lparr>totalServices :=
                               length (Object_keys sourceServices)\<rparr>\<rparr>;
          (servers, result2, t2) =
             fold (mergeConfigs_step clk options) (Object_entries sourceServices)
               (mcpServers tgtConfig, result1, t1);
          mergedConfig = tgtConfig\<lparr>mcpServers := servers, version := mergedVersion,
                            config_metadata := mergedMeta\<rparr>
      in if validateResult options
         then (case validate mergedConfig of
                 Inl e \<Rightarrow> (result2\<lparr>errors := errors result2 @ [MergeFailed e]\<rparr>, t2)
               | Inr validation \<Rightarrow>
                   (let result3 = (if \<not> isValid validation
                                   then result2\<lparr>errors := errors result2 @ v_errors validation\<rparr>
                                   else result2);
                        result4 = result3\<lparr>warnings := warnings result3 @ v_warnings validation\<rparr>
                    in (result4\<lparr>config := Some mergedConfig,
                                 success := (length (errors result4) = 0)\<rparr>, t2)))
         else (result2\<lparr>config := Some mergedConfig,
                        success := (length (errors result2) = 0)\<rparr>, t2))"

section \<open>Differences of two configurations\<close>

record Differences =
  onlyInFirst :: "string list"
  onlyInSecond :: "string list"
  different :: "string list"
  identical :: "string list"

text \<open>
  The loop over the common names. A common name is an own property of both objects, so
  both reads return a descriptor.
\<close>

definition analyze_step :: "MCPConfig \<Rightarrow> MCPConfig \<Rightarrow> string \<Rightarrow> string list \<times> string list
    \<Rightarrow> string list \<times> string list" where
  "analyze_step config1 config2 name acc =
     (case acc of (diff, ident) \<Rightarrow>
        (case (prop_get (mcpServers config1) name, prop_get (mcpServers config2) name) of
           (Some service1, Some service2) \<Rightarrow>
             if areServicesEqual service1 service2 then (diff, ident @ [name])
             else (diff @ [name], ident)
         | _ \<Rightarrow> (diff, ident)))"

definition analyzeDifferences :: "MCPConfig \<Rightarrow> MCPConfig \<Rightarrow> Differences" where
  "analyzeDifferences config1 config2 =
     (let services1 = Object_keys (mcpServers config1);
          services2 = Object_keys (mcpServers config2);
          first = filter (\<lambda>name. name \<notin> set services2) services1;
          second = filter (\<lambda>name. name \<notin> set services1) services2;
          common = filter (\<lambda>name. name \<in> set services2) services1;
          (diff, ident) = fold (analyze_step config1 config2) common ([], [])
      in \<lparr>onlyInFirst = first, onlyInSecond = second, different = diff,
          identical = ident\<rparr>)"

section \<open>Structural equality\<close>

text \<open>
  Two objects are structurally equal when each property of either is a property of the
  other with a related value.
\<close>

definition obj_rel :: "('v \<Rightarrow> 'v \<Rightarrow> bool) \<Rightarrow> 'v obj \<Rightarrow> 'v obj \<Rightarrow> bool" where
  "obj_rel R a b =
     list_all (\<lambda>k. rel_option R (map_of a k) (map_of b k)) (Object_keys a @ Object_keys b)"

definition service_equal :: "MCPServiceConfig \<Rightarrow> MCPServiceConfig \<Rightarrow> bool" where
  "service_equal s1 s2 =
     (command s1 = command s2 \<and> args s1 = args s2 \<and>
      rel_option (obj_rel (=)) (env s1) (env s2) \<and>
      disabled s1 = disabled s2 \<and> cwd s1 = cwd s2 \<and> timeout s1 = timeout s2 \<and>
      rel_option (obj_rel (=)) (metadata s1) (metadata s2))"

definition config_equal :: "MCPConfig \<Rightarrow> MCPConfig \<Rightarrow> bool" where
  "config_equal c1 c2 =
     (obj_rel service_equal (mcpServers c1) (mcpServers c2) \<and>
      version c1 = version c2 \<and>
      rel_option (obj_rel (=)) (config_metadata c1) (config_metadata c2) \<and>
      schema c1 = schema c2)"

section \<open>The store: objects with identity\<close>

text \<open>
  Whether an operation writes to its inputs, and whether its outputs are new objects, depends
  on which object is which. For these questions the program is modelled a second time over
  a store. An address is an index into the store, allocation appends a cell, and the cells
  are the objects of the data model, holding references where the objects hold objects. The
  decisions of the program (equality, conflicts, versions, strategies) are the functions
  above, applied to what is read from the store; the allocations and the writes are those of
  the source, statement by statement.
\<close>

type_synonym addr = nat

record service_cell =
  s_command :: "string option"
  s_args :: "addr option"
  s_env :: "addr option"
  s_disabled :: "bool option"
  s_cwd :: "string option"
  s_timeout :: "int option"
  s_metadata :: "addr option"

record config_cell =
  c_mcpServers :: "addr option"
  c_version :: "string option"
  c_metadata :: "addr option"
  c_schema :: "string option"

datatype hobj =
    HConfig config_cell
  | HServers "addr obj"
  | HService service_cell
  | HArgs "string list"
  | HEnv "string obj"
  | HMeta metadata_obj

type_synonym heap = "hobj list"

definition cell :: "heap \<Rightarrow> addr \<Rightarrow> hobj option" where
  "cell h a = (if a < length h then Some (h ! a) else None)"

definition alloc :: "heap \<Rightarrow> hobj \<Rightarrow> addr \<times> heap" where
  "alloc h ob = (length h, h @ [ob])"

text \<open>A write to a property of the object at an address; \<open>f\<close> is the new content.\<close>

definition update_cell :: "heap \<Rightarrow> addr \<Rightarrow> (hobj \<Rightarrow> hobj) \<Rightarrow> heap" where
  "update_cell h a f = (case cell h a of Some ob \<Rightarrow> h[a := f ob] | None \<Rightarrow> h)"

definition empty_service_cell :: service_cell where
  "empty_service_cell = \<lparr>s_command = None, s_args = None, s_env = None, s_disabled = None,
     s_cwd = None, s_timeout = None, s_metadata = None\<rparr>"

definition empty_config_cell :: config_cell where
  "empty_config_cell = \<lparr>c_mcpServers = None, c_version = None, c_metadata = None,
     c_schema = None\<rparr>"

text \<open>
  Reads. A reference that is absent reads as \<open>undefined\<close>; so does, in the model, one that
  leads to no object of the expected kind (which a well-typed input does not hold).
\<close>

definition service_cell_at :: "heap \<Rightarrow> addr \<Rightarrow> service_cell" where
  "service_cell_at h a = (case cell h a of Some (HService c) \<Rightarrow> c | _ \<Rightarrow> empty_service_cell)"

definition config_cell_at :: "heap \<Rightarrow> addr \<Rightarrow> config_cell" where
  "config_cell_at h a = (case cell h a of Some (HConfig c) \<Rightarrow> c | _ \<Rightarrow> empty_config_cell)"

definition args_at :: "heap \<Rightarrow> addr option \<Rightarrow> string list option" where
  "args_at h r =
     (case r of None \<Rightarrow> None
      | Some a \<Rightarrow> (case cell h a of Some (HArgs xs) \<Rightarrow> Some xs | _ \<Rightarrow> None))"

definition env_at :: "heap \<Rightarrow> addr option \<Rightarrow> string obj option" where
  "env_at h r =
     (case r of None \<Rightarrow> None
      | Some a \<Rightarrow> (case cell h a of Some (HEnv e) \<Rightarrow> Some e | _ \<Rightarrow> None))"

definition meta_at :: "heap \<Rightarrow> addr option \<Rightarrow> metadata_obj option" where
  "meta_at h r =
     (case r of None \<Rightarrow> None
      | Some a \<Rightarrow> (case cell h a of Some (HMeta m) \<Rightarrow> Some m | _ \<Rightarrow> None))"

definition servers_at :: "heap \<Rightarrow> addr option \<Rightarrow> addr obj" where
  "servers_at h r =
     (case r of None \<Rightarrow> []
      | Some a \<Rightarrow> (case cell h a of Some (HServers m) \<Rightarrow> m | _ \<Rightarrow> []))"

text \<open>The descriptor and the configuration that the store holds at an address, as values.\<close>

definition view_cell :: "heap \<Rightarrow> service_cell \<Rightarrow> MCPServiceConfig" where
  "view_cell h c =
     \<lparr>command = s_command c, args = args_at h (s_args c), env = env_at h (s_env c),
      disabled = s_disabled c, cwd = s_cwd c, timeout = s_timeout c,
      metadata = meta_at h (s_metadata c)\<rparr>"

definition service_at :: "heap \<Rightarrow> addr \<Rightarrow> MCPServiceConfig" where
  "service_at h a = view_cell h (service_cell_at h a)"

definition read_config :: "heap \<Rightarrow> addr \<Rightarrow> MCPConfig" where
  "read_config h a =
     (let c = config_cell_at h a
      in \<lparr>mcpServers = map (\<lambda>(name, sa). (name, service_at h sa)) (servers_at h (c_mcpServers c)),
          version = c_version c,
          config_metadata = meta_at h (c_metadata c),
          schema = c_schema c\<rparr>)"

text \<open>
  \<open>mcpServers[serviceName]\<close> on the store: the reference an own property holds, or the
  inherited member of \<open>Object.prototype\<close>, which has no field of a descriptor.
\<close>

datatype target_ref = Own addr | Inherited

definition prop_lookup :: "addr obj \<Rightarrow> string \<Rightarrow> target_ref option" where
  "prop_lookup ob name =
     (case map_of ob name of
        Some a \<Rightarrow> Some (Own a)
      | None \<Rightarrow> if name \<in> set Object_prototype_names then Some Inherited else None)"

definition target_cell :: "heap \<Rightarrow> target_ref \<Rightarrow> service_cell" where
  "target_cell h tr = (case tr of Own a \<Rightarrow> service_cell_at h a | Inherited \<Rightarrow> empty_service_cell)"

definition entry_set :: "addr obj \<Rightarrow> string \<Rightarrow> addr \<Rightarrow> addr obj" where
  "entry_set ob name v =
     (if map_of ob name = None \<and> name = ''__proto__'' then ob else AList.update name v ob)"

text \<open>The writes of the program: each sets one property of one object.\<close>

fun set_entry :: "string \<Rightarrow> addr \<Rightarrow> hobj \<Rightarrow> hobj" where
  "set_entry name v (HServers m) = HServers (entry_set m name v)"
| "set_entry name v ob = ob"

fun set_env :: "addr option \<Rightarrow> hobj \<Rightarrow> hobj" where
  "set_env e (HService c) = HService (c\<lparr>s_env := e\<rparr>)"
| "set_env e ob = ob"

fun set_metadata :: "addr option \<Rightarrow> hobj \<Rightarrow> hobj" where
  "set_metadata m (HService c) = HService (c\<lparr>s_metadata := m\<rparr>)"
| "set_metadata m (HConfig c) = HConfig (c\<lparr>c_metadata := m\<rparr>)"
| "set_metadata m ob = ob"

fun set_version :: "string option \<Rightarrow> hobj \<Rightarrow> hobj" where
  "set_version v (HConfig c) = HConfig (c\<lparr>c_version := v\<rparr>)"
| "set_version v ob = ob"

text \<open>
  Conflicts and results on the store: as before, with references in place of the
  descriptors and of the merged record. A conflict holds the source's and the target's
  descriptor themselves (\<open>sourceConfig: sourceService\<close>).
\<close>

record HeapConflict =
  hc_id :: "string \<times> int"
  hc_serviceName :: string
  hc_kind :: conflict_type
  hc_sourceConfig :: addr
  hc_targetConfig :: target_ref
  hc_description :: "string \<times> string list"
  hc_path :: string
  hc_values :: "addr \<times> target_ref"

record HeapServiceResult =
  hs_action :: merge_action
  hs_config :: "addr option"
  hs_conflict :: "HeapConflict option"
  hs_warnings :: "message list option"

record HeapMergeResult =
  hr_success :: bool
  hr_config :: "addr option"
  hr_conflicts :: "HeapConflict list"
  hr_errors :: "message list"
  hr_warnings :: "message list"
  hr_stats :: MergeStats

section \<open>The operations on the store\<close>

text \<open>\<open>mergeMetadata\<close> returns a new object, or \<open>undefined\<close> when both are absent.\<close>

definition mergeMetadata_heap :: "clock \<Rightarrow> nat \<Rightarrow> heap \<Rightarrow> addr option \<Rightarrow> addr option
    \<Rightarrow> addr option \<times> heap \<times> nat" where
  "mergeMetadata_heap clk t h sourceMeta targetMeta =
     (if sourceMeta = None \<and> targetMeta = None then (None, h, t)
      else (case alloc h (HMeta (AList.update ''lastModified'' (MNum (clk t))
                            (spread (spread_opt (meta_at h targetMeta))
                               (spread_opt (meta_at h sourceMeta))))) of
              (a, h') \<Rightarrow> (Some a, h', Suc t)))"

text \<open>
  \<open>mergeServiceConfigs\<close>: \<open>merged\<close> is a new object with the properties of the target and
  the source (\<open>spread_cells\<close>: nested objects are shared, not copied); then \<open>merged.env\<close> is
  set to a new object when either side has an environment (\<open>merge_env\<close>), and
  \<open>merged.metadata\<close> to the merged metadata when metadata is preserved (\<open>merge_metadata\<close>,
  also the step of \<open>mergeConfigs\<close> for the record's metadata).
\<close>

definition spread_cells :: "service_cell \<Rightarrow> service_cell \<Rightarrow> service_cell" where
  "spread_cells tc sc =
     \<lparr>s_command = override (s_command sc) (s_command tc),
      s_args = override (s_args sc) (s_args tc),
      s_env = override (s_env sc) (s_env tc),
      s_disabled = override (s_disabled sc) (s_disabled tc),
      s_cwd = override (s_cwd sc) (s_cwd tc),
      s_timeout = override (s_timeout sc) (s_timeout tc),
      s_metadata = override (s_metadata sc) (s_metadata tc)\<rparr>"

definition merge_env :: "heap \<Rightarrow> addr \<Rightarrow> service_cell \<Rightarrow> service_cell \<Rightarrow> heap" where
  "merge_env h merged sc tc =
     (if s_env sc \<noteq> None \<or> s_env tc \<noteq> None
      then (case alloc h (HEnv (spread (spread_opt (env_at h (s_env tc)))
                                  (spread_opt (env_at h (s_env sc))))) of
              (e, h') \<Rightarrow> update_cell h' merged (set_env (Some e)))
      else h)"

definition merge_metadata :: "clock \<Rightarrow> nat \<Rightarrow> heap \<Rightarrow> addr \<Rightarrow> addr option \<Rightarrow> addr option
    \<Rightarrow> bool \<Rightarrow> heap \<times> nat" where
  "merge_metadata clk t h merged sourceMeta targetMeta preserveMeta =
     (if preserveMeta
      then (case mergeMetadata_heap clk t h sourceMeta targetMeta of
              (m, h', t') \<Rightarrow> (update_cell h' merged (set_metadata m), t'))
      else (h, t))"

definition mergeServiceConfigs_heap :: "clock \<Rightarrow> nat \<Rightarrow> heap \<Rightarrow> addr \<Rightarrow> target_ref \<Rightarrow> bool
    \<Rightarrow> addr \<times> heap \<times> nat" where
  "mergeServiceConfigs_heap clk t h sourceService targetService preserveMeta =
     (let sc = service_cell_at h sourceService;
          tc = target_cell h targetService
      in case alloc h (HService (spread_cells tc sc)) of
           (merged, h1) \<Rightarrow>
             (case merge_metadata clk t (merge_env h1 merged sc tc) merged
                     (s_metadata sc) (s_metadata tc) preserveMeta of
                (h3, t') \<Rightarrow> (merged, h3, t')))"

definition detectServiceConflict_heap :: "clock \<Rightarrow> nat \<Rightarrow> heap \<Rightarrow> string \<Rightarrow> addr \<Rightarrow> target_ref
    \<Rightarrow> HeapConflict option \<times> nat" where
  "detectServiceConflict_heap clk t h name sourceService targetService =
     (let fields = conflicting_fields (service_at h sourceService)
                     (view_cell h (target_cell h targetService))
      in if length fields = 0 then (None, t)
         else (Some \<lparr>hc_id = (name, clk t),
                       hc_serviceName = name,
                       hc_kind = different_config,
                       hc_sourceConfig = sourceService,
                       hc_targetConfig = targetService,
                       hc_description = (name, fields),
                       hc_path = [],
                       hc_values = (sourceService, targetService)\<rparr>,
               Suc t))"

text \<open>\<open>{ ...sourceService }\<close>: a new object with the properties of the source's.\<close>

definition copy_service :: "heap \<Rightarrow> addr \<Rightarrow> addr \<times> heap" where
  "copy_service h a = alloc h (HService (service_cell_at h a))"

definition mergeService_heap :: "clock \<Rightarrow> nat \<Rightarrow> heap \<Rightarrow> string \<Rightarrow> addr \<Rightarrow> target_ref option
    \<Rightarrow> MergeOptions \<Rightarrow> HeapServiceResult \<times> heap \<times> nat" where
  "mergeService_heap clk t h name sourceService targetService options =
     (case targetService of
        None \<Rightarrow>
          (case copy_service h sourceService of
             (a, h') \<Rightarrow>
               (\<lparr>hs_action = Add, hs_config = Some a, hs_conflict = None,
                 hs_warnings = None\<rparr>, h', t))
      | Some tgt \<Rightarrow>
          (case detectServiceConflict_heap clk t h name sourceService tgt of
             (None, t1) \<Rightarrow>
               (case mergeServiceConfigs_heap clk t1 h sourceService tgt
                       (preserveMetadata options) of
                  (m, h', t2) \<Rightarrow>
                    (\<lparr>hs_action = Update, hs_config = Some m, hs_conflict = None,
                      hs_warnings = None\<rparr>, h', t2))
           | (Some c, t1) \<Rightarrow>
               (case strategy options of
                  OVERWRITE \<Rightarrow>
                    (case copy_service h sourceService of
                       (a, h') \<Rightarrow>
                         (\<lparr>hs_action = Update, hs_config = Some a, hs_conflict = None,
                           hs_warnings = Some [Overwritten name]\<rparr>, h', t1))
                | SKIP \<Rightarrow>
                    (\<lparr>hs_action = Skip, hs_config = None, hs_conflict = None,
                      hs_warnings = Some [SkippedConflict name]\<rparr>, h, t1)
                | MERGE \<Rightarrow>
                    (case mergeServiceConfigs_heap clk t1 h sourceService tgt
                            (preserveMetadata options) of
                       (m, h', t2) \<Rightarrow>
                         (\<lparr>hs_action = Update, hs_config = Some m, hs_conflict = None,
                           hs_warnings = Some [ForcedMerge name]\<rparr>, h', t2))
                | PROMPT \<Rightarrow>
                    (\<lparr>hs_action = Skip, hs_config = None, hs_conflict = Some c,
                      hs_warnings = None\<rparr>, h, t1))))"

text \<open>
  \<open>mergeConfigs\<close>: \<open>copy_target\<close> is \<open>{...targetConfig, mcpServers: {...targetConfig.mcpServers}}\<close>
  followed by the assignment of the version; the loop writes to the new map of services
  only; \<open>finish_merge\<close> is the validation and the last two assignments to the result.
\<close>

definition record_service_result_heap :: "addr \<Rightarrow> string \<Rightarrow> HeapServiceResult
    \<Rightarrow> heap \<times> HeapMergeResult \<Rightarrow> heap \<times> HeapMergeResult" where
  "record_service_result_heap servers name r st =
     (case st of (h, result) \<Rightarrow>
        (let (h1, result1) =
               (case hs_conflict r of
                  Some c \<Rightarrow>
                    (h,
                     result\<lparr>hr_conflicts := hr_conflicts result @ [c],
                            hr_stats := (hr_stats result)\<lparr>conflictServices :=
                                           Suc (conflictServices (hr_stats result))\<rparr>\<rparr>)
                | None \<Rightarrow>
                    (case hs_action r of
                       Add \<Rightarrow>
                         ((case hs_config r of
                             Some c \<Rightarrow> update_cell h servers (set_entry name c)
                           | None \<Rightarrow> h),
                          result\<lparr>hr_stats := (hr_stats result)\<lparr>addedServices :=
                                           Suc (addedServices (hr_stats result))\<rparr>\<rparr>)
                     | Update \<Rightarrow>
                         ((case hs_config r of
                             Some c \<Rightarrow> update_cell h servers (set_entry name c)
                           | None \<Rightarrow> h),
                          result\<lparr>hr_stats := (hr_stats result)\<lparr>updatedServices :=
                                           Suc (updatedServices (hr_stats result))\<rparr>\<rparr>)
                     | Skip \<Rightarrow>
                         (h,
                          result\<lparr>hr_stats := (hr_stats result)\<lparr>skippedServices :=
                                           Suc (skippedServices (hr_stats result))\<rparr>\<rparr>)));
             result2 = (case hs_warnings r of
                          Some ws \<Rightarrow> result1\<lparr>hr_warnings := hr_warnings result1 @ ws\<rparr>
                        | None \<Rightarrow> result1)
         in (h1, result2)))"

definition mergeConfigs_step_heap :: "clock \<Rightarrow> MergeOptions \<Rightarrow> addr \<Rightarrow> string \<times> addr
    \<Rightarrow> heap \<times> HeapMergeResult \<times> nat \<Rightarrow> heap \<times> HeapMergeResult \<times> nat" where
  "mergeConfigs_step_heap clk options servers entry st =
     (case entry of (name, serviceConfig) \<Rightarrow>
        (case st of (h, result, t) \<Rightarrow>
           (case mergeService_heap clk t h name serviceConfig
                   (prop_lookup (servers_at h (Some servers)) name) options of
              (r, h1, t') \<Rightarrow>
                (case record_service_result_heap servers name r (h1, result) of
                   (h2, result2) \<Rightarrow> (h2, result2, t')))))"

definition copy_target :: "heap \<Rightarrow> config_cell \<Rightarrow> config_cell \<Rightarrow> addr \<times> addr \<times> heap" where
  "copy_target h sc tc =
     (case alloc h (HServers (servers_at h (c_mcpServers tc))) of
        (servers, h1) \<Rightarrow>
          (case alloc h1 (HConfig (tc\<lparr>c_mcpServers := Some servers\<rparr>)) of
             (mergedConfig, h2) \<Rightarrow>
               (servers, mergedConfig,
                update_cell h2 mergedConfig
                  (set_version (merged_version (c_version sc) (c_version tc))))))"

definition finish_merge :: "validator \<Rightarrow> MergeOptions \<Rightarrow> heap \<Rightarrow> addr \<Rightarrow> HeapMergeResult
    \<Rightarrow> HeapMergeResult" where
  "finish_merge validate options h mergedConfig result2 =
     (if validateResult options
      then (case validate (read_config h mergedConfig) of
              Inl e \<Rightarrow> result2\<lparr>hr_errors := hr_errors result2 @ [MergeFailed e]\<rparr>
            | Inr validation \<Rightarrow>
                (let result3 = (if \<not> isValid validation
                                then result2\<lparr>hr_errors := hr_errors result2 @
                                                v_errors validation\<rparr>
                                else result2);
                     result4 = result3\<lparr>hr_warnings := hr_warnings result3 @
                                             v_warnings validation\<rparr>
                 in result4\<lparr>hr_config := Some mergedConfig,
                             hr_success := (length (hr_errors result4) = 0)\<rparr>))
      else result2\<lparr>hr_config := Some mergedConfig,
                    hr_success := (length (hr_errors result2) = 0)\<rparr>)"

definition mergeConfigs_heap :: "validator \<Rightarrow> clock \<Rightarrow> nat \<Rightarrow> heap \<Rightarrow> addr \<Rightarrow> addr \<Rightarrow> MergeOptions
    \<Rightarrow> HeapMergeResult \<times> heap \<times> nat" where
  "mergeConfigs_heap validate clk t0 h0 srcConfig tgtConfig options =
     (let sc = config_cell_at h0 srcConfig;
          tc = config_cell_at h0 tgtConfig;
          sourceServices = servers_at h0 (c_mcpServers sc)
      in case copy_target h0 sc tc of
           (servers, mergedConfig, h3) \<Rightarrow>
             (case merge_metadata clk t0 h3 mergedConfig (c_metadata sc) (c_metadata tc)
                     (preserveMetadata options) of
                (h5, t1) \<Rightarrow>
                  (case fold (mergeConfigs_step_heap clk options servers)
                          (Object_entries sourceServices)
                          (h5,
                           \<lparr>hr_success = False, hr_config = None, hr_conflicts = [],
                            hr_errors = [], hr_warnings = [],
                            hr_stats = empty_stats\<lparr>totalServices :=
                                         length (Object_keys sourceServices)\<rparr>\<rparr>,
                           t1) of
                     (h6, result2, t2) \<Rightarrow>
                       (finish_merge validate options h6 mergedConfig result2, h6, t2))))"







section \<open>Quantities and inputs used in the statements\<close>

text \<open>The number of source services a result accounts for.\<close>

definition counted :: "MergeStats \<Rightarrow> nat" where
  "counted st =
     addedServices st + updatedServices st + skippedServices st + conflictServices st"

text \<open>
  The objects the program receives have pairwise different keys: the service names of a
  configuration, and the names in each environment and in each metadata object.
\<close>

definition keys_distinct :: "'v obj option \<Rightarrow> bool" where
  "keys_distinct ob = (case ob of None \<Rightarrow> True | Some a \<Rightarrow> distinct (Object_keys a))"

definition wf_service :: "MCPServiceConfig \<Rightarrow> bool" where
  "wf_service s = (keys_distinct (env s) \<and> keys_distinct (metadata s))"

definition wf_config :: "MCPConfig \<Rightarrow> bool" where
  "wf_config c =
     (distinct (Object_keys (mcpServers c)) \<and>
      list_all (\<lambda>(name, s). wf_service s) (mcpServers c) \<and>
      keys_distinct (config_metadata c))"

text \<open>
  No service is named \<open>__proto__\<close>. (Writing a service of that name that the working object
  does not own replaces the object's prototype, and the model does not follow reads through
  a replaced prototype; the statements about the outcome of every service of a merge keep
  to sources without such a name.)
\<close>

definition plain_names :: "MCPConfig \<Rightarrow> bool" where
  "plain_names c = (''__proto__'' \<notin> set (Object_keys (mcpServers c)))"

text \<open>
  Two descriptors agree on \<open>command\<close>, \<open>args\<close>, \<open>env\<close> and \<open>disabled\<close>: each field is
  absent in both or present in both with the same value (for \<open>env\<close>, the same variables
  with the same values, in any order).
\<close>

definition fields_agree :: "MCPServiceConfig \<Rightarrow> MCPServiceConfig \<Rightarrow> bool" where
  "fields_agree s1 s2 =
     (command s1 = command s2 \<and> args s1 = args s2 \<and>
      rel_option (obj_rel (=)) (env s1) (env s2) \<and> disabled s1 = disabled s2)"

text \<open>What \<open>analyzeDifferences\<close> tests for a name that both configurations hold.\<close>

definition same_service :: "MCPConfig \<Rightarrow> MCPConfig \<Rightarrow> string \<Rightarrow> bool" where
  "same_service config1 config2 name =
     (case (map_of (mcpServers config1) name, map_of (mcpServers config2) name) of
        (Some s1, Some s2) \<Rightarrow> areServicesEqual s1 s2
      | _ \<Rightarrow> False)"

text \<open>
  The outcome of the merge for one entry of the source, as the statistics count it: what
  the lookup of the name in the target and the conflict test decide, with the strategy.
\<close>

datatype outcome = Added | Updated | Skipped | Conflicted

definition classify :: "MergeOptions \<Rightarrow> MCPServiceConfig obj \<Rightarrow> string \<times> MCPServiceConfig
    \<Rightarrow> outcome" where
  "classify options target entry =
     (case entry of (name, s) \<Rightarrow>
        (case prop_get target name of
           None \<Rightarrow> Added
         | Some tgt \<Rightarrow>
             if conflicting_fields s tgt = [] then Updated
             else (case strategy options of
                     OVERWRITE \<Rightarrow> Updated | SKIP \<Rightarrow> Skipped | MERGE \<Rightarrow> Updated
                   | PROMPT \<Rightarrow> Conflicted)))"

definition count_outcome :: "outcome \<Rightarrow> MergeStats \<Rightarrow> nat" where
  "count_outcome oc st =
     (case oc of Added \<Rightarrow> addedServices st | Updated \<Rightarrow> updatedServices st
      | Skipped \<Rightarrow> skippedServices st | Conflicted \<Rightarrow> conflictServices st)"

text \<open>
  The loop of \<open>mergeConfigs\<close> with the state it starts from, and the metadata of the merged
  record, named for the proofs.
\<close>

definition merge_loop :: "clock \<Rightarrow> nat \<Rightarrow> MCPConfig \<Rightarrow> MCPConfig \<Rightarrow> MergeOptions
    \<Rightarrow> MCPServiceConfig obj \<times> MergeResult \<times> nat" where
  "merge_loop clk t0 src tgt options =
     fold (mergeConfigs_step clk options) (Object_entries (mcpServers src))
       (mcpServers tgt,
        \<lparr>success = False, config = None, conflicts = [], errors = [], warnings = [],
         stats = empty_stats\<lparr>totalServices := length (Object_keys (mcpServers src))\<rparr>\<rparr>,
        snd (if preserveMetadata options
             then mergeMetadata clk t0 (config_metadata src) (config_metadata tgt)
             else (config_metadata tgt, t0)))"

definition merged_metadata :: "clock \<Rightarrow> nat \<Rightarrow> MCPConfig \<Rightarrow> MCPConfig \<Rightarrow> MergeOptions
    \<Rightarrow> metadata_obj option" where
  "merged_metadata clk t0 src tgt options =
     fst (if preserveMetadata options
          then mergeMetadata clk t0 (config_metadata src) (config_metadata tgt)
          else (config_metadata tgt, t0))"

text \<open>The descriptor that the merged record of a result holds under a name.\<close>

definition merged_service :: "MergeResult \<Rightarrow> string \<Rightarrow> MCPServiceConfig option" where
  "merged_service r name =
     (case config r of None \<Rightarrow> None | Some merged \<Rightarrow> map_of (mcpServers merged) name)"

text \<open>
  Structural equality up to the time stamps: the metadata objects are compared without
  their \<open>lastModified\<close>.
\<close>

definition meta_equal_mod :: "metadata_obj \<Rightarrow> metadata_obj \<Rightarrow> bool" where
  "meta_equal_mod m1 m2 =
     obj_rel (=) (AList.delete ''lastModified'' m1) (AList.delete ''lastModified'' m2)"

definition service_equal_mod :: "MCPServiceConfig \<Rightarrow> MCPServiceConfig \<Rightarrow> bool" where
  "service_equal_mod s1 s2 =
     (command s1 = command s2 \<and> args s1 = args s2 \<and>
      rel_option (obj_rel (=)) (env s1) (env s2) \<and>
      disabled s1 = disabled s2 \<and> cwd s1 = cwd s2 \<and> timeout s1 = timeout s2 \<and>
      rel_option meta_equal_mod (metadata s1) (metadata s2))"

definition config_equal_mod :: "MCPConfig \<Rightarrow> MCPConfig \<Rightarrow> bool" where
  "config_equal_mod c1 c2 =
     (obj_rel service_equal_mod (mcpServers c1) (mcpServers c2) \<and>
      version c1 = version c2 \<and>
      rel_option meta_equal_mod (config_metadata c1) (config_metadata c2) \<and>
      schema c1 = schema c2)"

text \<open>The merged record of a result is present and structurally equal to a record.\<close>

definition merged_equals :: "MergeResult \<Rightarrow> MCPConfig \<Rightarrow> bool" where
  "merged_equals r c =
     (case config r of None \<Rightarrow> False | Some merged \<Rightarrow> config_equal merged c)"

definition merged_equals_mod :: "MergeResult \<Rightarrow> MCPConfig \<Rightarrow> bool" where
  "merged_equals_mod r c =
     (case config r of None \<Rightarrow> False | Some merged \<Rightarrow> config_equal_mod merged c)"

text \<open>
  The reading of a version string in the specification's words: the string is split on
  the dots, each segment is a non-negative integer in decimal digits, and a segment that
  is missing counts as \<open>0\<close>. \<open>numeric_version\<close> holds for the strings of that form whose
  segments are below \<open>2^53\<close>, the integers that every double represents exactly.
\<close>

definition numeric_version :: "string \<Rightarrow> bool" where
  "numeric_version v =
     list_all (\<lambda>seg. list_all is_digit seg \<and> decimal seg < 2 ^ 53)
       (String_split CHR ''.'' v)"

definition segment_value :: "string \<Rightarrow> nat \<Rightarrow> int" where
  "segment_value v i =
     (let segs = String_split CHR ''.'' v
      in if i < length segs then decimal (segs ! i) else 0)"

text \<open>
  Every object of the store \<open>h0\<close> is in the store \<open>h\<close>, at its address and with its content.
\<close>

definition unchanged :: "heap \<Rightarrow> heap \<Rightarrow> bool" where
  "unchanged h0 h = (take (length h0) h = h0)"






text \<open>
  What the store holds, read as values: a conflict and the result for one service with the
  descriptors their references lead to, a result with its merged record, and a map of
  services with the descriptor of each.
\<close>

definition conflict_view :: "heap \<Rightarrow> HeapConflict \<Rightarrow> ConfigConflict" where
  "conflict_view h c =
     \<lparr>conflict_id = hc_id c,
      serviceName = hc_serviceName c,
      conflict_kind = hc_kind c,
      sourceConfig = service_at h (hc_sourceConfig c),
      targetConfig = view_cell h (target_cell h (hc_targetConfig c)),
      description = hc_description c,
      path = hc_path c,
      conflict_values = (service_at h (fst (hc_values c)),
                         view_cell h (target_cell h (snd (hc_values c))))\<rparr>"

definition service_result_view :: "heap \<Rightarrow> HeapServiceResult \<Rightarrow> ServiceMergeResult" where
  "service_result_view h r =
     \<lparr>r_action = hs_action r,
      r_config = map_option (service_at h) (hs_config r),
      r_conflict = map_option (conflict_view h) (hs_conflict r),
      r_warnings = hs_warnings r\<rparr>"

definition result_view :: "heap \<Rightarrow> HeapMergeResult \<Rightarrow> MergeResult" where
  "result_view h r =
     \<lparr>success = hr_success r,
      config = map_option (read_config h) (hr_config r),
      conflicts = map (conflict_view h) (hr_conflicts r),
      errors = hr_errors r,
      warnings = hr_warnings r,
      stats = hr_stats r\<rparr>"

definition services_view :: "heap \<Rightarrow> addr obj \<Rightarrow> MCPServiceConfig obj" where
  "services_view h m = map (\<lambda>(name, a). (name, service_at h a)) m"

text \<open>
  The two models agree on a merge when the result on the store, read in the store that the
  merge leaves, is the result of the merge of the two configurations read from the store
  the merge starts from, and the clock has been read as often.
\<close>

definition models_agree :: "validator \<Rightarrow> clock \<Rightarrow> nat \<Rightarrow> heap \<Rightarrow> addr \<Rightarrow> addr \<Rightarrow> MergeOptions
    \<Rightarrow> bool" where
  "models_agree validate clk t h srcConfig tgtConfig options =
     (case mergeConfigs_heap validate clk t h srcConfig tgtConfig options of
        (r, h', t') \<Rightarrow>
          (result_view h' r, t') =
            mergeConfigs validate clk t (read_config h srcConfig) (read_config h tgtConfig)
              options)"

text \<open>
  A store is well typed when every reference in it leads to an object of the kind that the
  data model gives to the property holding the reference.
\<close>

datatype kind = KConfig | KServers | KService | KArgs | KEnv | KMeta

definition kind_of :: "hobj \<Rightarrow> kind" where
  "kind_of ob =
     (case ob of HConfig _ \<Rightarrow> KConfig | HServers _ \<Rightarrow> KServers | HService _ \<Rightarrow> KService
      | HArgs _ \<Rightarrow> KArgs | HEnv _ \<Rightarrow> KEnv | HMeta _ \<Rightarrow> KMeta)"

definition is_kind :: "kind \<Rightarrow> heap \<Rightarrow> addr \<Rightarrow> bool" where
  "is_kind k h a = (a < length h \<and> kind_of (h ! a) = k)"

definition ref_ok :: "kind \<Rightarrow> heap \<Rightarrow> addr option \<Rightarrow> bool" where
  "ref_ok k h r = (case r of None \<Rightarrow> True | Some a \<Rightarrow> is_kind k h a)"

definition typed_service :: "heap \<Rightarrow> service_cell \<Rightarrow> bool" where
  "typed_service h c =
     (ref_ok KArgs h (s_args c) \<and> ref_ok KEnv h (s_env c) \<and> ref_ok KMeta h (s_metadata c))"

definition typed_config :: "heap \<Rightarrow> config_cell \<Rightarrow> bool" where
  "typed_config h c = (ref_ok KServers h (c_mcpServers c) \<and> ref_ok KMeta h (c_metadata c))"

definition typed_servers :: "heap \<Rightarrow> addr obj \<Rightarrow> bool" where
  "typed_servers h m = list_all (\<lambda>(name, a). is_kind KService h a) m"

definition typed_obj :: "heap \<Rightarrow> hobj \<Rightarrow> bool" where
  "typed_obj h ob =
     (case ob of
        HConfig c \<Rightarrow> typed_config h c
      | HServers m \<Rightarrow> typed_servers h m
      | HService c \<Rightarrow> typed_service h c
      | HArgs _ \<Rightarrow> True | HEnv _ \<Rightarrow> True | HMeta _ \<Rightarrow> True)"

definition well_typed :: "heap \<Rightarrow> bool" where
  "well_typed h = list_all (typed_obj h) h"

text \<open>
  Relations between the store before and after an operation. \<open>same_kinds\<close>: every object is
  still there, with its kind. \<open>extends\<close>: moreover every object but the maps of services has
  its content. \<open>keeps_leaves\<close>: the argument lists, the environments and the metadata objects
  have their content. A write is \<open>leaf_safe\<close> when it keeps the kind of every object and the
  content of those.
\<close>

definition same_kinds :: "heap \<Rightarrow> heap \<Rightarrow> bool" where
  "same_kinds h h' =
     (length h \<le> length h' \<and> list_all (\<lambda>a. kind_of (h' ! a) = kind_of (h ! a)) [0..<length h])"

definition same_but_servers :: "hobj \<Rightarrow> hobj \<Rightarrow> bool" where
  "same_but_servers a b =
     (case a of HServers _ \<Rightarrow> (case b of HServers _ \<Rightarrow> True | _ \<Rightarrow> False) | _ \<Rightarrow> a = b)"

definition extends :: "heap \<Rightarrow> heap \<Rightarrow> bool" where
  "extends h h' =
     (length h \<le> length h' \<and> list_all (\<lambda>a. same_but_servers (h ! a) (h' ! a)) [0..<length h])"

definition is_leaf :: "hobj \<Rightarrow> bool" where
  "is_leaf ob = (case ob of HArgs _ \<Rightarrow> True | HEnv _ \<Rightarrow> True | HMeta _ \<Rightarrow> True | _ \<Rightarrow> False)"

definition keeps_leaves :: "heap \<Rightarrow> heap \<Rightarrow> bool" where
  "keeps_leaves h h' =
     (same_kinds h h' \<and> list_all (\<lambda>a. is_leaf (h ! a) \<longrightarrow> h' ! a = h ! a) [0..<length h])"

definition leaf_safe :: "(hobj \<Rightarrow> hobj) \<Rightarrow> bool" where
  "leaf_safe f = (\<forall>ob. kind_of (f ob) = kind_of ob \<and> (is_leaf ob \<longrightarrow> f ob = ob))"

text \<open>The descriptors that a conflict on the store refers to are descriptors of the store.\<close>

definition conflict_ok :: "heap \<Rightarrow> HeapConflict \<Rightarrow> bool" where
  "conflict_ok h c =
     (is_kind KService h (hc_sourceConfig c) \<and>
      (case hc_targetConfig c of Own a \<Rightarrow> is_kind KService h a | Inherited \<Rightarrow> True) \<and>
      hc_values c = (hc_sourceConfig c, hc_targetConfig c))"

text \<open>
  Concrete inputs: the descriptors of the specification's scenarios
  (\<open>{command: "node", args: ["a"]}\<close> against \<open>{command: "node", args: ["b"]}\<close> under the
  name \<open>fs\<close>), a service \<open>git\<close> that both configurations hold unchanged and a service
  \<open>web\<close> that only the source holds; and a clock that starts at a fixed time and advances
  by a millisecond with each reading.
\<close>

definition service :: "string \<Rightarrow> string list \<Rightarrow> MCPServiceConfig" where
  "service cmd as = \<lparr>command = Some cmd, args = Some as, env = None, disabled = None,
     cwd = None, timeout = None, metadata = None\<rparr>"

definition configuration :: "MCPServiceConfig obj \<Rightarrow> MCPConfig" where
  "configuration servers = \<lparr>mcpServers = servers, version = None, config_metadata = None,
     schema = None\<rparr>"

definition example_target :: MCPConfig where
  "example_target = configuration
     [(''fs'', service ''node'' [''a'']), (''git'', service ''uvx'' [''mcp-server-git''])]"

definition example_source :: MCPConfig where
  "example_source = configuration
     [(''fs'', service ''node'' [''b'']), (''git'', service ''uvx'' [''mcp-server-git'']),
      (''web'', service ''npx'' [''-y'', ''pkg''])]"

definition example_options :: "MergeStrategy \<Rightarrow> MergeOptions" where
  "example_options st = \<lparr>strategy = st, preserveMetadata = False, createBackup = False,
     validateResult = True\<rparr>"

definition options_with :: "MergeStrategy \<Rightarrow> bool \<Rightarrow> bool \<Rightarrow> MergeOptions" where
  "options_with st pm vr = \<lparr>strategy = st, preserveMetadata = pm, createBackup = False,
     validateResult = vr\<rparr>"

text \<open>
  A record with metadata, last modified before the clock starts, and options that preserve
  metadata.
\<close>

definition example_record :: MCPConfig where
  "example_record =
     \<lparr>mcpServers = [(''fs'', service ''node'' [''a''])],
      version = Some ''1.2.0'',
      config_metadata =
        Some [(''createdBy'', MStr ''ops''), (''createdAt'', MNum 1690000000000),
              (''lastModified'', MNum 1690000000000), (''version'', MStr ''1.2.0'')],
      schema = None\<rparr>"

definition preserving_options :: MergeOptions where
  "preserving_options = \<lparr>strategy = MERGE, preserveMetadata = True, createBackup = False,
     validateResult = False\<rparr>"

text \<open>A source whose only service has the name of a property of \<open>Object.prototype\<close>.\<close>

definition inherited_name_source :: MCPConfig where
  "inherited_name_source =
     configuration [(''constructor'', service ''npx'' [''-y'', ''pkg''])]"

definition example_clock :: clock where
  "example_clock n = 1700000000000 + int n"

text \<open>
  Two stores. In \<open>example_heap\<close> the target is at address 3 (its service \<open>fs\<close> at 1) and the
  source at 9 (its services \<open>fs\<close> at 5 and \<open>web\<close> at 7). In \<open>rich_heap\<close> the target, with
  environment and metadata, is at 6 and the source at 13.
\<close>

definition example_heap :: heap where
  "example_heap =
     [HArgs [''a''],
      HService (empty_service_cell\<lparr>s_command := Some ''node'', s_args := Some 0\<rparr>),
      HServers [(''fs'', 1)],
      HConfig (empty_config_cell\<lparr>c_mcpServers := Some 2\<rparr>),
      HArgs [''b''],
      HService (empty_service_cell\<lparr>s_command := Some ''node'', s_args := Some 4\<rparr>),
      HArgs [''-y'', ''pkg''],
      HService (empty_service_cell\<lparr>s_command := Some ''npx'', s_args := Some 6\<rparr>),
      HServers [(''fs'', 5), (''web'', 7)],
      HConfig (empty_config_cell\<lparr>c_mcpServers := Some 8\<rparr>)]"

definition rich_heap :: heap where
  "rich_heap =
     [HArgs [''a''],
      HEnv [(''HOME'', ''/srv''), (''MODE'', ''prod'')],
      HMeta [(''description'', MStr ''files''), (''lastModified'', MNum 1690000000000)],
      HService (empty_service_cell\<lparr>s_command := Some ''node'', s_args := Some 0,
        s_env := Some 1, s_metadata := Some 2\<rparr>),
      HServers [(''fs'', 3)],
      HMeta [(''createdBy'', MStr ''ops''), (''lastModified'', MNum 1690000000000)],
      HConfig (empty_config_cell\<lparr>c_mcpServers := Some 4, c_version := Some ''1.2.0'',
        c_metadata := Some 5\<rparr>),
      HArgs [''a''],
      HEnv [(''MODE'', ''test''), (''TOKEN'', ''x'')],
      HService (empty_service_cell\<lparr>s_command := Some ''node'', s_args := Some 7,
        s_env := Some 8, s_disabled := Some True\<rparr>),
      HArgs [''-y'', ''pkg''],
      HService (empty_service_cell\<lparr>s_command := Some ''npx'', s_args := Some 10\<rparr>),
      HServers [(''fs'', 9), (''web'', 11)],
      HConfig (empty_config_cell\<lparr>c_mcpServers := Some 12, c_version := Some ''1.10.0''\<rparr>)]"

section \<open>Argument-list equality\<close>

lemma list_all_nth_eq:
  assumes len: "length a1 = length a2"
  shows "list_all (\<lambda>i. a1 ! i = a2 ! i) [0..<length a1] = (a1 = a2)"
proof
  assume "list_all (\<lambda>i. a1 ! i = a2 ! i) [0..<length a1]"
  then have "\<forall>i<length a1. a1 ! i = a2 ! i"
    by (simp add: list_all_iff)
  with len show "a1 = a2"
    by (simp add: nth_equalityI)
next
  assume "a1 = a2"
  then show "list_all (\<lambda>i. a1 ! i = a2 ! i) [0..<length a1]"
    by (simp add: list_all_iff)
qed

lemma areArraysEqual_Some:
  "areArraysEqual (Some a1) (Some a2) = (a1 = a2)"
proof (cases "length a1 = length a2")
  case True
  then show ?thesis
    using list_all_nth_eq [OF True] by (simp add: areArraysEqual_def)
next
  case False
  then show ?thesis
    by (auto simp: areArraysEqual_def)
qed

lemma areArraysEqual_iff:
  "areArraysEqual arr1 arr2 = (arr1 = arr2)"
proof (cases arr1)
  case None
  then show ?thesis by (cases arr2) (simp_all add: areArraysEqual_def)
next
  case (Some a1)
  then show ?thesis
    by (cases arr2) (simp_all add: areArraysEqual_Some, simp add: areArraysEqual_def)
qed

text \<open>
  C3 (as the code has it). \<open>areArraysEqual\<close> returns true exactly when both lists are absent,
  or both are present with the same length and equal elements at every position. An empty
  list against an absent one is a difference, and so are equal elements in another order.
\<close>

theorem areArraysEqual_positional:
  "(areArraysEqual arr1 arr2 =
     ((arr1 = None \<and> arr2 = None) \<or>
      (\<exists>a1 a2. arr1 = Some a1 \<and> arr2 = Some a2 \<and> length a1 = length a2 \<and>
         (\<forall>i<length a1. a1 ! i = a2 ! i)))) \<and>
   \<not> areArraysEqual (Some []) None \<and>
   \<not> areArraysEqual None (Some []) \<and>
   (x \<noteq> y \<longrightarrow> \<not> areArraysEqual (Some [x, y]) (Some [y, x]))"
proof -
  have "areArraysEqual arr1 arr2 =
     ((arr1 = None \<and> arr2 = None) \<or>
      (\<exists>a1 a2. arr1 = Some a1 \<and> arr2 = Some a2 \<and> length a1 = length a2 \<and>
         (\<forall>i<length a1. a1 ! i = a2 ! i)))"
  proof (cases arr1)
    case None
    then show ?thesis by (simp add: areArraysEqual_iff) blast
  next
    case (Some a1)
    then show ?thesis
      by (cases arr2) (auto simp: areArraysEqual_iff list_eq_iff_nth_eq)
  qed
  moreover have "\<not> areArraysEqual (Some []) None" "\<not> areArraysEqual None (Some [])"
    by (simp_all add: areArraysEqual_iff)
  moreover have "x \<noteq> y \<longrightarrow> \<not> areArraysEqual (Some [x, y]) (Some [y, x])"
    by (simp add: areArraysEqual_iff)
  ultimately show ?thesis by blast
qed

theorem areArraysEqual_positional_witness:
  "areArraysEqual (Some [''-y'', ''pkg'']) (Some [''-y'', ''pkg'']) \<and>
   ''pkg'' \<noteq> ''-y'' \<and>
   \<not> areArraysEqual (Some [''pkg'', ''-y'']) (Some [''-y'', ''pkg''])"
proof -
  have ne: "''pkg'' \<noteq> ''-y''" by simp
  have "areArraysEqual (Some [''-y'', ''pkg'']) (Some [''-y'', ''pkg''])"
    using areArraysEqual_positional [of "Some [''-y'', ''pkg'']" "Some [''-y'', ''pkg'']"]
    by simp
  moreover have "\<not> areArraysEqual (Some [''pkg'', ''-y'']) (Some [''-y'', ''pkg''])"
    using ne areArraysEqual_positional [of None None "''pkg''" "''-y''"] by blast
  ultimately show ?thesis using ne by blast
qed

text \<open>
  C3 as the specification states it fails: an empty list on one side and an absent list on
  the other are reported as different.
\<close>

theorem areArraysEqual_empty_absent_counterexample:
  "areArraysEqual (Some []) None = False"
  by (simp add: areArraysEqual_def)

section \<open>Statistics of a pairwise merge\<close>

lemma record_service_result_stats:
  "record_service_result name r (servers, result) = (servers', result') \<Longrightarrow>
   counted (stats result') = Suc (counted (stats result)) \<and>
   totalServices (stats result') = totalServices (stats result)"
  by (auto simp: record_service_result_def counted_def Let_def
           split: option.splits merge_action.splits)

lemma mergeConfigs_step_stats:
  "mergeConfigs_step clk options entry (servers, result, t) = (servers', result', t') \<Longrightarrow>
   counted (stats result') = Suc (counted (stats result)) \<and>
   totalServices (stats result') = totalServices (stats result)"
  by (auto simp: mergeConfigs_step_def split: prod.splits dest: record_service_result_stats)

lemma fold_step_stats:
  "fold (mergeConfigs_step clk options) entries (servers, result, t) = (servers', result', t') \<Longrightarrow>
   counted (stats result') = counted (stats result) + length entries \<and>
   totalServices (stats result') = totalServices (stats result)"
proof (induction entries arbitrary: servers result t)
  case Nil
  then show ?case by simp
next
  case (Cons e es)
  obtain s1 r1 t1 where step: "mergeConfigs_step clk options e (servers, result, t) = (s1, r1, t1)"
    by (metis prod_cases3)
  with Cons.prems have "fold (mergeConfigs_step clk options) es (s1, r1, t1) = (servers', result', t')"
    by simp
  from Cons.IH [OF this] mergeConfigs_step_stats [OF step] show ?case by simp
qed

text \<open>
  The loop of \<open>mergeConfigs\<close>, named: the state it starts from and the state it ends in.
  Validation changes neither the statistics nor the conflicts.
\<close>

lemma mergeConfigs_stats:
  "stats (fst (mergeConfigs validate clk t0 src tgt options)) =
   stats (fst (snd (fold (mergeConfigs_step clk options) (Object_entries (mcpServers src))
      (mcpServers tgt,
       \<lparr>success = False, config = None, conflicts = [], errors = [], warnings = [],
        stats = empty_stats\<lparr>totalServices := length (Object_keys (mcpServers src))\<rparr>\<rparr>,
       snd (if preserveMetadata options
              then mergeMetadata clk t0 (config_metadata src) (config_metadata tgt)
              else (config_metadata tgt, t0))))))"
  by (simp add: mergeConfigs_def Let_def split: prod.splits sum.splits)

lemma mergeConfigs_conflicts:
  "conflicts (fst (mergeConfigs validate clk t0 src tgt options)) =
   conflicts (fst (snd (fold (mergeConfigs_step clk options) (Object_entries (mcpServers src))
      (mcpServers tgt,
       \<lparr>success = False, config = None, conflicts = [], errors = [], warnings = [],
        stats = empty_stats\<lparr>totalServices := length (Object_keys (mcpServers src))\<rparr>\<rparr>,
       snd (if preserveMetadata options
              then mergeMetadata clk t0 (config_metadata src) (config_metadata tgt)
              else (config_metadata tgt, t0))))))"
  by (simp add: mergeConfigs_def Let_def split: prod.splits sum.splits)

text \<open>
  C1. After every pairwise merge, whatever the validator, the clock, the strategy and the two
  records, \<open>totalServices\<close> is the number of service names of the source and equals the sum
  of the added, updated, skipped and conflicting services.
\<close>

theorem stats_invariant:
  "totalServices (stats (fst (mergeConfigs validate clk t0 src tgt options))) =
     addedServices (stats (fst (mergeConfigs validate clk t0 src tgt options))) +
     updatedServices (stats (fst (mergeConfigs validate clk t0 src tgt options))) +
     skippedServices (stats (fst (mergeConfigs validate clk t0 src tgt options))) +
     conflictServices (stats (fst (mergeConfigs validate clk t0 src tgt options))) \<and>
   totalServices (stats (fst (mergeConfigs validate clk t0 src tgt options))) =
     length (Object_keys (mcpServers src))"
proof -
  let ?init = "\<lparr>success = False, config = None, conflicts = [], errors = [], warnings = [],
        stats = empty_stats\<lparr>totalServices := length (Object_keys (mcpServers src))\<rparr>\<rparr>"
  let ?t1 = "snd (if preserveMetadata options
              then mergeMetadata clk t0 (config_metadata src) (config_metadata tgt)
              else (config_metadata tgt, t0))"
  obtain s' r' t' where f: "fold (mergeConfigs_step clk options) (Object_entries (mcpServers src))
      (mcpServers tgt, ?init, ?t1) = (s', r', t')"
    by (metis prod_cases3)
  from fold_step_stats [OF f] have
    "counted (stats r') = length (mcpServers src)"
    "totalServices (stats r') = length (mcpServers src)"
    by (simp_all add: counted_def empty_stats_def Object_entries_def Object_keys_def)
  moreover have "stats (fst (mergeConfigs validate clk t0 src tgt options)) = stats r'"
    by (simp add: mergeConfigs_stats f)
  ultimately show ?thesis
    by (simp add: counted_def Object_keys_def)
qed

theorem stats_invariant_witness:
  "stats (fst (mergeConfigs validateConfig example_clock 0 example_source example_target
      (example_options PROMPT))) =
     \<lparr>totalServices = 3, addedServices = 1, updatedServices = 1, skippedServices = 0,
      conflictServices = 1\<rparr> \<and>
   totalServices (stats (fst (mergeConfigs validateConfig example_clock 0 example_source
      example_target (example_options PROMPT)))) = (1::nat) + 1 + 0 + 1"
proof -
  have v: "stats (fst (mergeConfigs validateConfig example_clock 0 example_source example_target
      (example_options PROMPT))) =
     \<lparr>totalServices = 3, addedServices = 1, updatedServices = 1, skippedServices = 0,
      conflictServices = 1\<rparr>"
    by code_simp
  from stats_invariant [of validateConfig example_clock 0 example_source example_target
      "example_options PROMPT"]
  show ?thesis unfolding v by simp
qed

section \<open>Conflicts and their count\<close>

lemma mergeService_conflict_prompt:
  "strategy options \<noteq> PROMPT \<Longrightarrow>
   r_conflict (fst (mergeService clk t name s tgt options)) = None"
  by (cases "strategy options")
     (auto simp: mergeService_def split: option.splits prod.splits)

lemma record_service_result_conflicts:
  "record_service_result name r (servers, result) = (servers', result') \<Longrightarrow>
   length (conflicts result) = conflictServices (stats result) \<Longrightarrow>
   length (conflicts result') = conflictServices (stats result') \<and>
   (r_conflict r = None \<longrightarrow> conflicts result' = conflicts result)"
  by (auto simp: record_service_result_def Let_def
           split: option.splits merge_action.splits)

lemma mergeConfigs_step_conflicts:
  assumes "mergeConfigs_step clk options entry (servers, result, t) = (servers', result', t')"
    and "length (conflicts result) = conflictServices (stats result)"
  shows "length (conflicts result') = conflictServices (stats result') \<and>
         (strategy options \<noteq> PROMPT \<longrightarrow> conflicts result' = conflicts result)"
proof -
  obtain name s where e: "entry = (name, s)" by (cases entry)
  obtain r t1 where m: "mergeService clk t name s (prop_get servers name) options = (r, t1)"
    by (cases "mergeService clk t name s (prop_get servers name) options")
  from assms(1) e m have rec: "record_service_result name r (servers, result) = (servers', result')"
    by (auto simp: mergeConfigs_step_def split: prod.splits)
  have "strategy options \<noteq> PROMPT \<Longrightarrow> r_conflict r = None"
    using mergeService_conflict_prompt [of options clk t name s "prop_get servers name"] m by simp
  with record_service_result_conflicts [OF rec assms(2)] show ?thesis by auto
qed

lemma fold_step_conflicts:
  "fold (mergeConfigs_step clk options) entries (servers, result, t) = (servers', result', t') \<Longrightarrow>
   length (conflicts result) = conflictServices (stats result) \<Longrightarrow>
   length (conflicts result') = conflictServices (stats result') \<and>
   (strategy options \<noteq> PROMPT \<longrightarrow> conflicts result' = conflicts result)"
proof (induction entries arbitrary: servers result t)
  case Nil
  then show ?case by simp
next
  case (Cons e es)
  obtain s1 r1 t1 where step: "mergeConfigs_step clk options e (servers, result, t) = (s1, r1, t1)"
    by (metis prod_cases3)
  with Cons.prems have f: "fold (mergeConfigs_step clk options) es (s1, r1, t1) = (servers', result', t')"
    by simp
  from mergeConfigs_step_conflicts [OF step Cons.prems(2)]
  have a: "length (conflicts r1) = conflictServices (stats r1)"
    and b: "strategy options \<noteq> PROMPT \<longrightarrow> conflicts r1 = conflicts result" by simp_all
  from Cons.IH [OF f a] b show ?case by simp
qed

text \<open>
  C10. In every result of a pairwise merge the conflicts list is as long as
  \<open>conflictServices\<close> counts, and under the overwrite, skip and merge strategies it is
  empty: a conflict is surfaced only under the prompt strategy.
\<close>

theorem conflicts_counted_and_only_prompt:
  "length (conflicts (fst (mergeConfigs validate clk t0 src tgt options))) =
     conflictServices (stats (fst (mergeConfigs validate clk t0 src tgt options))) \<and>
   (strategy options \<noteq> PROMPT \<longrightarrow>
      conflicts (fst (mergeConfigs validate clk t0 src tgt options)) = [])"
proof -
  let ?init = "\<lparr>success = False, config = None, conflicts = [], errors = [], warnings = [],
        stats = empty_stats\<lparr>totalServices := length (Object_keys (mcpServers src))\<rparr>\<rparr>"
  let ?t1 = "snd (if preserveMetadata options
              then mergeMetadata clk t0 (config_metadata src) (config_metadata tgt)
              else (config_metadata tgt, t0))"
  obtain s' r' t' where f: "fold (mergeConfigs_step clk options) (Object_entries (mcpServers src))
      (mcpServers tgt, ?init, ?t1) = (s', r', t')"
    by (metis prod_cases3)
  have "length (conflicts ?init) = conflictServices (stats ?init)"
    by (simp add: empty_stats_def)
  from fold_step_conflicts [OF f this]
  have "length (conflicts r') = conflictServices (stats r')"
    and "strategy options \<noteq> PROMPT \<longrightarrow> conflicts r' = []" by simp_all
  moreover have "stats (fst (mergeConfigs validate clk t0 src tgt options)) = stats r'"
    by (simp add: mergeConfigs_stats f)
  moreover have "conflicts (fst (mergeConfigs validate clk t0 src tgt options)) = conflicts r'"
    by (simp add: mergeConfigs_conflicts f)
  ultimately show ?thesis by simp
qed

theorem conflicts_counted_and_only_prompt_witness:
  "strategy (example_options SKIP) \<noteq> PROMPT \<and>
   conflicts (fst (mergeConfigs validateConfig example_clock 0 example_source example_target
      (example_options SKIP))) = []"
proof -
  have h: "strategy (example_options SKIP) \<noteq> PROMPT"
    by (simp add: example_options_def)
  with conflicts_counted_and_only_prompt [of validateConfig example_clock 0 example_source
      example_target "example_options SKIP"]
  show ?thesis by blast
qed

section \<open>Structural equality of objects and the equality of environments\<close>

lemma obj_rel_iff:
  "obj_rel R a b = (\<forall>k. rel_option R (map_of a k) (map_of b k))"
proof
  assume h: "obj_rel R a b"
  show "\<forall>k. rel_option R (map_of a k) (map_of b k)"
  proof
    fix k
    show "rel_option R (map_of a k) (map_of b k)"
    proof (cases "k \<in> set (Object_keys a @ Object_keys b)")
      case True
      with h show ?thesis by (simp add: obj_rel_def list_all_iff)
    next
      case False
      then have "map_of a k = None" "map_of b k = None"
        by (simp_all add: Object_keys_def map_of_eq_None_iff)
      then show ?thesis by simp
    qed
  qed
next
  assume "\<forall>k. rel_option R (map_of a k) (map_of b k)"
  then show "obj_rel R a b" by (simp add: obj_rel_def list_all_iff)
qed

lemma obj_rel_eq: "obj_rel (=) a b = (map_of a = map_of b)"
  by (auto simp: obj_rel_iff option.rel_eq fun_eq_iff)

lemma keys_subset_card:
  assumes d1: "distinct (map fst o1)" and d2: "distinct (map fst o2)"
    and len: "length o1 = length o2"
    and sub: "fst ` set o1 \<subseteq> fst ` set o2"
  shows "fst ` set o1 = fst ` set o2"
proof -
  have "card (fst ` set o1) = length o1"
    using d1 distinct_card [of "map fst o1"] by simp
  moreover have "card (fst ` set o2) = length o2"
    using d2 distinct_card [of "map fst o2"] by simp
  ultimately have "card (fst ` set o1) = card (fst ` set o2)" using len by simp
  with sub show ?thesis by (simp add: card_subset_eq)
qed

lemma areObjectsEqual_Some:
  assumes d1: "distinct (Object_keys o1)" and d2: "distinct (Object_keys o2)"
  shows "areObjectsEqual (Some o1) (Some o2) = (map_of o1 = map_of o2)"
proof
  assume eq: "areObjectsEqual (Some o1) (Some o2)"
  then have len: "length o1 = length o2"
    by (simp add: areObjectsEqual_def Object_keys_def split: if_splits)
  from eq have all: "\<forall>k\<in>fst ` set o1. map_of o1 k = map_of o2 k"
    by (auto simp: areObjectsEqual_def Object_keys_def list_all_iff split: if_splits)
  have sub: "fst ` set o1 \<subseteq> fst ` set o2"
  proof
    fix k assume k: "k \<in> fst ` set o1"
    then have "map_of o1 k \<noteq> None" by (simp add: map_of_eq_None_iff)
    moreover from all k have "map_of o1 k = map_of o2 k" by blast
    ultimately have "map_of o2 k \<noteq> None" by simp
    then show "k \<in> fst ` set o2" by (simp add: map_of_eq_None_iff)
  qed
  have keys: "fst ` set o1 = fst ` set o2"
    using keys_subset_card [OF _ _ len sub] d1 d2 by (simp add: Object_keys_def)
  show "map_of o1 = map_of o2"
  proof
    fix k
    show "map_of o1 k = map_of o2 k"
    proof (cases "k \<in> fst ` set o1")
      case True
      with all show ?thesis by blast
    next
      case False
      with keys have "map_of o1 k = None" "map_of o2 k = None"
        by (simp_all add: map_of_eq_None_iff)
      then show ?thesis by simp
    qed
  qed
next
  assume eq: "map_of o1 = map_of o2"
  then have "dom (map_of o1) = dom (map_of o2)" by simp
  then have keys: "fst ` set o1 = fst ` set o2" by (simp add: dom_map_of_conv_image_fst)
  have "length o1 = card (fst ` set o1)"
    using d1 distinct_card [of "map fst o1"] by (simp add: Object_keys_def)
  moreover have "length o2 = card (fst ` set o2)"
    using d2 distinct_card [of "map fst o2"] by (simp add: Object_keys_def)
  ultimately have "length o1 = length o2" using keys by simp
  with eq show "areObjectsEqual (Some o1) (Some o2)"
    by (simp add: areObjectsEqual_def Object_keys_def list_all_iff)
qed

lemma areServicesEqual_agree:
  assumes "wf_service s1" and "wf_service s2"
  shows "areServicesEqual s1 s2 = fields_agree s1 s2"
proof -
  have "areObjectsEqual (env s1) (env s2) = rel_option (obj_rel (=)) (env s1) (env s2)"
  proof (cases "env s1")
    case None
    then show ?thesis by (cases "env s2") (simp_all add: areObjectsEqual_def)
  next
    case (Some e1)
    show ?thesis
    proof (cases "env s2")
      case None
      with Some show ?thesis by (simp add: areObjectsEqual_def)
    next
      case (Some e2)
      with \<open>env s1 = Some e1\<close> assms show ?thesis
        by (simp add: wf_service_def keys_distinct_def areObjectsEqual_Some obj_rel_eq)
    qed
  qed
  then show ?thesis
    by (simp add: areServicesEqual_def fields_agree_def areArraysEqual_iff)
qed

section \<open>The partition computed by analyzeDifferences\<close>

lemma prop_get_own: "map_of ob name = Some v \<Longrightarrow> prop_get ob name = Some v"
  by (simp add: prop_get_def)

lemma key_has_value: "name \<in> set (Object_keys ob) \<Longrightarrow> \<exists>v. map_of ob name = Some v"
  by (metis Object_keys_def map_of_eq_None_iff not_Some_eq set_map)

lemma map_of_wf_service:
  "list_all (\<lambda>(name, s). wf_service s) ob \<Longrightarrow> map_of ob name = Some s \<Longrightarrow> wf_service s"
  by (auto simp: list_all_iff dest: map_of_SomeD)

lemma analyze_step_common:
  assumes "name \<in> set (Object_keys (mcpServers config1))"
    and "name \<in> set (Object_keys (mcpServers config2))"
  shows "analyze_step config1 config2 name (diff, ident) =
     (if same_service config1 config2 name then (diff, ident @ [name])
      else (diff @ [name], ident))"
proof -
  from key_has_value [OF assms(1)] obtain s1 where s1: "map_of (mcpServers config1) name = Some s1"
    by blast
  from key_has_value [OF assms(2)] obtain s2 where s2: "map_of (mcpServers config2) name = Some s2"
    by blast
  show ?thesis
    by (simp add: analyze_step_def same_service_def s1 s2 prop_get_own)
qed

lemma fold_analyze_step:
  assumes "set names \<subseteq> set (Object_keys (mcpServers config1))"
    and "set names \<subseteq> set (Object_keys (mcpServers config2))"
  shows "fold (analyze_step config1 config2) names (diff, ident) =
     (diff @ filter (\<lambda>n. \<not> same_service config1 config2 n) names,
      ident @ filter (same_service config1 config2) names)"
  using assms
proof (induction names arbitrary: diff ident)
  case Nil
  then show ?case by simp
next
  case (Cons n ns)
  then have n: "n \<in> set (Object_keys (mcpServers config1))"
      "n \<in> set (Object_keys (mcpServers config2))"
    and ns: "set ns \<subseteq> set (Object_keys (mcpServers config1))"
      "set ns \<subseteq> set (Object_keys (mcpServers config2))"
    by simp_all
  show ?case
    by (simp add: analyze_step_common [OF n] Cons.IH [OF ns])
qed

lemma analyzeDifferences_lists:
  "analyzeDifferences config1 config2 =
     \<lparr>onlyInFirst = filter (\<lambda>n. n \<notin> set (Object_keys (mcpServers config2)))
        (Object_keys (mcpServers config1)),
      onlyInSecond = filter (\<lambda>n. n \<notin> set (Object_keys (mcpServers config1)))
        (Object_keys (mcpServers config2)),
      different = filter (\<lambda>n. \<not> same_service config1 config2 n)
        (filter (\<lambda>n. n \<in> set (Object_keys (mcpServers config2)))
           (Object_keys (mcpServers config1))),
      identical = filter (same_service config1 config2)
        (filter (\<lambda>n. n \<in> set (Object_keys (mcpServers config2)))
           (Object_keys (mcpServers config1)))\<rparr>"
proof -
  let ?common = "filter (\<lambda>n. n \<in> set (Object_keys (mcpServers config2)))
           (Object_keys (mcpServers config1))"
  have "set ?common \<subseteq> set (Object_keys (mcpServers config1))"
    "set ?common \<subseteq> set (Object_keys (mcpServers config2))" by auto
  from fold_analyze_step [OF this, of "[]" "[]"] show ?thesis
    by (simp add: analyzeDifferences_def Let_def)
qed

text \<open>
  C8. For two configurations whose objects have pairwise different keys, the four lists of
  \<open>analyzeDifferences\<close> are pairwise disjoint and without repetition, together they hold
  exactly the service names of the two configurations, and a name that both hold is in
  \<open>identical\<close> exactly when the two descriptors agree on \<open>command\<close>, \<open>args\<close>, \<open>env\<close> and
  \<open>disabled\<close>, and in \<open>different\<close> otherwise.
\<close>

theorem analyzeDifferences_partition:
  assumes "wf_config config1" and "wf_config config2"
  shows "set (onlyInFirst (analyzeDifferences config1 config2)) \<inter>
           set (onlyInSecond (analyzeDifferences config1 config2)) = {} \<and>
         set (onlyInFirst (analyzeDifferences config1 config2)) \<inter>
           set (different (analyzeDifferences config1 config2)) = {} \<and>
         set (onlyInFirst (analyzeDifferences config1 config2)) \<inter>
           set (identical (analyzeDifferences config1 config2)) = {} \<and>
         set (onlyInSecond (analyzeDifferences config1 config2)) \<inter>
           set (different (analyzeDifferences config1 config2)) = {} \<and>
         set (onlyInSecond (analyzeDifferences config1 config2)) \<inter>
           set (identical (analyzeDifferences config1 config2)) = {} \<and>
         set (different (analyzeDifferences config1 config2)) \<inter>
           set (identical (analyzeDifferences config1 config2)) = {} \<and>
         set (onlyInFirst (analyzeDifferences config1 config2)) \<union>
           set (onlyInSecond (analyzeDifferences config1 config2)) \<union>
           set (different (analyzeDifferences config1 config2)) \<union>
           set (identical (analyzeDifferences config1 config2)) =
           set (Object_keys (mcpServers config1)) \<union> set (Object_keys (mcpServers config2)) \<and>
         distinct (onlyInFirst (analyzeDifferences config1 config2) @
           onlyInSecond (analyzeDifferences config1 config2) @
           different (analyzeDifferences config1 config2) @
           identical (analyzeDifferences config1 config2)) \<and>
         (\<forall>name s1 s2.
            map_of (mcpServers config1) name = Some s1 \<and>
            map_of (mcpServers config2) name = Some s2 \<longrightarrow>
              (name \<in> set (identical (analyzeDifferences config1 config2)) = fields_agree s1 s2) \<and>
              (name \<in> set (different (analyzeDifferences config1 config2)) = (\<not> fields_agree s1 s2)))"
proof -
  have d1: "distinct (Object_keys (mcpServers config1))"
    and d2: "distinct (Object_keys (mcpServers config2))"
    using assms by (simp_all add: wf_config_def)
  have agree: "same_service config1 config2 name = fields_agree s1 s2"
    if "map_of (mcpServers config1) name = Some s1" "map_of (mcpServers config2) name = Some s2"
    for name s1 s2
  proof -
    have "wf_service s1" "wf_service s2"
      using assms that by (auto simp: wf_config_def intro: map_of_wf_service)
    then show ?thesis
      by (simp add: same_service_def that areServicesEqual_agree)
  qed
  have keys: "name \<in> set (Object_keys (mcpServers c))" if "map_of (mcpServers c) name = Some s"
    for name s and c :: MCPConfig
    using that by (metis Object_keys_def map_of_eq_None_iff option.distinct(1) set_map)
  show ?thesis
    unfolding analyzeDifferences_lists
    using d1 d2 by (auto simp: agree keys)
qed

theorem analyzeDifferences_partition_witness:
  "wf_config example_source \<and> wf_config example_target \<and>
   analyzeDifferences example_source example_target =
     \<lparr>onlyInFirst = [''web''], onlyInSecond = [], different = [''fs''],
      identical = [''git'']\<rparr> \<and>
   set (different (analyzeDifferences example_source example_target)) \<inter>
     set (identical (analyzeDifferences example_source example_target)) = {}"
proof -
  have w1: "wf_config example_source" by code_simp
  have w2: "wf_config example_target" by code_simp
  have v: "analyzeDifferences example_source example_target =
     \<lparr>onlyInFirst = [''web''], onlyInSecond = [], different = [''fs''],
      identical = [''git'']\<rparr>"
    by code_simp
  from analyzeDifferences_partition [OF w1 w2]
  have "set (different (analyzeDifferences example_source example_target)) \<inter>
     set (identical (analyzeDifferences example_source example_target)) = {}"
    by blast
  with w1 w2 v show ?thesis by blast
qed

section \<open>Version comparison is numeric and positional\<close>

text \<open>A non-negative integer below \<open>2^53\<close> is a double: \<open>Number\<close> reads its digits exactly.\<close>

lemma pow_int_nonpos: "k \<le> 0 \<Longrightarrow> pow_int 2 k = 1 / 2 ^ nat (- k)"
  by (cases "k = 0") (simp_all add: pow_int_def)

lemma round_half_even_int [simp]: "round_half_even (of_int m) = m"
  by (simp add: round_half_even_def)

lemma binade_int_le:
  assumes "0 < n" and "n < 2 ^ 53"
  shows "binade (of_int n) \<le> 52" and "- 1 \<le> binade (of_int n)"
proof -
  from assms(2) have "bitlen n \<le> 53" by (simp add: bitlen_le_iff_power)
  moreover from bitlen_bounds [OF assms(1)] assms(1) have "1 \<le> bitlen n"
    using bitlen_eq_zero_iff [of n] bitlen_nonneg [of n] by linarith
  moreover have "bitlen 1 = 1" by (simp add: compute_bitlen)
  ultimately show "binade (of_int n) \<le> 52" and "- 1 \<le> binade (of_int n)"
    by (simp_all add: binade_def Let_def)
qed

lemma Number_value_exact:
  assumes "0 \<le> n" and "n < 2 ^ 53"
  shows "Number_value (of_int n) = Num (of_int n)"
proof (cases "n = 0")
  case True
  then show ?thesis by (simp add: Number_value_def)
next
  case False
  with assms have pos: "0 < n" by simp
  let ?e = "max (binade (of_int n)) (- 1022)"
  from binade_int_le [OF pos assms(2)] have e: "?e - 52 \<le> 0" by simp
  let ?k = "nat (- (?e - 52))"
  have q: "pow_int 2 (?e - 52) = 1 / 2 ^ ?k" by (rule pow_int_nonpos [OF e])
  have "(of_int n :: rat) / (1 / 2 ^ ?k) = of_int (n * 2 ^ ?k)" by simp
  then have r: "round_half_even (of_int n / (1 / 2 ^ ?k)) = n * 2 ^ ?k"
    by (simp only: round_half_even_int)
  have y: "of_int (n * 2 ^ ?k) * (1 / 2 ^ ?k) = (of_int n :: rat)" by simp
  from assms(2) have "bitlen n \<le> 53" by (simp add: bitlen_le_iff_power)
  then have lt: "\<not> 1024 < bitlen \<lfloor>of_int n :: rat\<rfloor>" by simp
  from pos have a: "\<bar>of_int n :: rat\<bar> = of_int n" by simp
  from pos have nz: "(of_int n :: rat) \<noteq> 0" and p: "(0 :: rat) < of_int n" by simp_all
  show ?thesis
    unfolding Number_value_def Let_def a q r y using nz p lt by simp
qed

lemma digit_chars:
  assumes "is_digit c"
  shows "\<not> is_space c" and "c \<noteq> CHR ''+''" and "c \<noteq> CHR ''-''" and "c \<noteq> CHR ''.''"
    and "c \<noteq> CHR ''e''" and "c \<noteq> CHR ''E''" and "c \<noteq> CHR ''I''"
    and "c \<noteq> CHR ''b''" and "c \<noteq> CHR ''B''" and "c \<noteq> CHR ''o''" and "c \<noteq> CHR ''O''"
    and "c \<noteq> CHR ''x''" and "c \<noteq> CHR ''X''"
  using assms by (auto simp: is_digit_def is_space_def)

lemma trim_digits:
  assumes "list_all is_digit s"
  shows "trim s = s"
proof (cases "s = []")
  case True
  then show ?thesis by (simp add: trim_def)
next
  case False
  with assms have "is_digit (hd s)" and "is_digit (last s)" by (simp_all add: list_all_iff)
  then have h: "\<not> is_space (hd s)" and l: "\<not> is_space (last s)" by (simp_all add: digit_chars)
  from False h have 1: "dropWhile is_space s = s" by (cases s) simp_all
  from False have ne: "rev s \<noteq> []" by simp
  from False l have "\<not> is_space (hd (rev s))" by (simp add: hd_rev)
  with ne have 2: "dropWhile is_space (rev s) = rev s" by (cases "rev s") simp_all
  show ?thesis unfolding trim_def 1 2 by simp
qed

lemma split_at_absent:
  assumes "\<And>c. c \<in> set s \<Longrightarrow> \<not> p c"
  shows "split_at p s = (s, None)"
proof -
  from assms have t: "takeWhile (\<lambda>c. \<not> p c) s = s" by (simp add: takeWhile_eq_all_conv)
  from assms have d: "dropWhile (\<lambda>c. \<not> p c) s = []" by simp
  show ?thesis unfolding split_at_def t d by simp
qed

lemma radix_literal_digits:
  assumes "list_all is_digit s"
  shows "radix_literal s = None"
proof (cases s)
  case Nil
  then show ?thesis by (simp add: radix_literal_def)
next
  case (Cons c r)
  show ?thesis
  proof (cases r)
    case Nil
    with Cons show ?thesis by (simp add: radix_literal_def)
  next
    case (Cons p ds)
    with assms \<open>s = c # r\<close> have "is_digit p" by simp
    with Cons \<open>s = c # r\<close> show ?thesis by (simp add: radix_literal_def digit_chars)
  qed
qed

lemma decimal_nonneg_aux: "0 \<le> n \<Longrightarrow> list_all is_digit s \<Longrightarrow> 0 \<le> foldl (\<lambda>n c. 10 * n + digit_val c) n s"
proof (induction s arbitrary: n)
  case Nil
  then show ?case by simp
next
  case (Cons c s)
  from Cons.prems have "is_digit c" by simp
  then have "0 \<le> digit_val c" by (auto simp: is_digit_def digit_val_def)
  with Cons show ?case by simp
qed

lemma decimal_nonneg: "list_all is_digit s \<Longrightarrow> 0 \<le> decimal s"
  using decimal_nonneg_aux [of 0 s] by (simp add: decimal_def)

lemma unsigned_decimal_digits:
  assumes d: "list_all is_digit s" and ne: "s \<noteq> []" and b: "decimal s < 2 ^ 53"
  shows "unsigned_decimal s = Num (of_int (decimal s))"
proof -
  from d ne have "is_digit (hd s)" by (cases s) simp_all
  then have "hd s \<noteq> CHR ''I''" by (rule digit_chars)
  then have ni: "s \<noteq> ''Infinity''" by auto
  have e: "split_at (\<lambda>c. c = CHR ''e'' \<or> c = CHR ''E'') s = (s, None)"
    using d by (intro split_at_absent) (auto simp: list_all_iff digit_chars)
  have p: "split_at (\<lambda>c. c = CHR ''.'') s = (s, None)"
    using d by (intro split_at_absent) (auto simp: list_all_iff digit_chars)
  have "unsigned_decimal s = Number_value (of_int (decimal s) * pow_int 10 0)"
    using d ne ni by (simp add: unsigned_decimal_def e p)
  also have "\<dots> = Number_value (of_int (decimal s))" by (simp add: pow_int_def)
  also have "\<dots> = Num (of_int (decimal s))"
    by (rule Number_value_exact [OF decimal_nonneg [OF d] b])
  finally show ?thesis .
qed

lemma Number_str_digits:
  assumes d: "list_all is_digit seg" and b: "decimal seg < 2 ^ 53"
  shows "Number_str seg = Num (of_int (decimal seg))"
proof (cases seg)
  case Nil
  then show ?thesis by (simp add: Number_str_def trim_def decimal_def)
next
  case (Cons c r)
  with d have c: "is_digit c" by simp
  from Cons have ne: "seg \<noteq> []" by simp
  have "Number_str seg = unsigned_decimal seg"
    unfolding Number_str_def Let_def trim_digits [OF d] radix_literal_digits [OF d]
    using Cons c by (simp add: digit_chars)
  with unsigned_decimal_digits [OF d ne b] show ?thesis by simp
qed

lemma part_or_zero_numeric:
  assumes "numeric_version v"
  shows "part_or_zero (map Number_str (String_split CHR ''.'' v)) i =
         Num (of_int (segment_value v i))"
proof (cases "i < length (String_split CHR ''.'' v)")
  case True
  with assms have "list_all is_digit (String_split CHR ''.'' v ! i)"
    and "decimal (String_split CHR ''.'' v ! i) < 2 ^ 53"
    by (simp_all add: numeric_version_def list_all_length)
  with True show ?thesis
    by (simp add: part_or_zero_def segment_value_def Number_str_digits)
next
  case False
  then show ?thesis by (simp add: part_or_zero_def segment_value_def)
qed

lemma js_less_irrefl [simp]: "\<not> js_less a a"
  by (cases a) (simp_all add: js_less_def)

lemma js_less_Num [simp]: "js_less (Num x) (Num y) = (x < y)"
  by (simp add: js_less_def)

lemma part_or_zero_not_NaN [simp]: "part_or_zero p i \<noteq> NaN"
  by (simp add: part_or_zero_def split: jsnum.splits)

lemma js_less_total: "a \<noteq> NaN \<Longrightarrow> b \<noteq> NaN \<Longrightarrow> a \<noteq> b \<Longrightarrow> \<not> js_less b a \<Longrightarrow> js_less a b"
  by (cases a; cases b) (auto simp: js_less_def)

lemma loop_equal:
  "(\<And>j. i \<le> j \<Longrightarrow> j < n \<Longrightarrow> part_or_zero p1 j = part_or_zero p2 j) \<Longrightarrow>
   compareVersions_loop p1 p2 n i = 0"
proof (induction p1 p2 n i rule: compareVersions_loop.induct)
  case (1 p1 p2 n i)
  show ?case
  proof (cases "i < n")
    case True
    with "1.prems" have eq: "part_or_zero p1 i = part_or_zero p2 i" by simp
    have "compareVersions_loop p1 p2 n (Suc i) = 0"
      using "1.IH" [OF True refl refl] eq "1.prems" by simp
    with True eq show ?thesis
      by (subst compareVersions_loop.simps) simp
  next
    case False
    then show ?thesis by (subst compareVersions_loop.simps) simp
  qed
qed

lemma loop_first_difference:
  "i \<le> k \<Longrightarrow> k < n \<Longrightarrow>
   (\<And>j. i \<le> j \<Longrightarrow> j < k \<Longrightarrow> part_or_zero p1 j = part_or_zero p2 j) \<Longrightarrow>
   part_or_zero p1 k \<noteq> part_or_zero p2 k \<Longrightarrow>
   compareVersions_loop p1 p2 n i =
     (if js_less (part_or_zero p2 k) (part_or_zero p1 k) then 1 else - 1)"
proof (induction p1 p2 n i rule: compareVersions_loop.induct)
  case (1 p1 p2 n i)
  from "1.prems" have lt: "i < n" by simp
  show ?case
  proof (cases "i = k")
    case True
    have "js_less (part_or_zero p1 k) (part_or_zero p2 k)"
      if "\<not> js_less (part_or_zero p2 k) (part_or_zero p1 k)"
      using js_less_total [OF _ _ "1.prems"(4) that] by simp
    with True lt show ?thesis
      by (subst compareVersions_loop.simps) auto
  next
    case False
    with "1.prems" have ik: "Suc i \<le> k" and eq: "part_or_zero p1 i = part_or_zero p2 i"
      by simp_all
    have "compareVersions_loop p1 p2 n (Suc i) =
        (if js_less (part_or_zero p2 k) (part_or_zero p1 k) then 1 else - 1)"
      using "1.IH" [OF lt refl refl _ _ ik "1.prems"(2) _ "1.prems"(4)] eq "1.prems"(3) by simp
    with lt eq show ?thesis
      by (subst compareVersions_loop.simps) simp
  qed
qed

lemma part_or_zero_beyond: "length p \<le> k \<Longrightarrow> part_or_zero p k = Num 0"
  by (simp add: part_or_zero_def)

lemma difference_in_range:
  "part_or_zero p1 k \<noteq> part_or_zero p2 k \<Longrightarrow> k < max (length p1) (length p2)"
  by (rule ccontr) (simp add: part_or_zero_beyond not_less)

lemma segment_value_nonneg:
  assumes "numeric_version v" shows "0 \<le> segment_value v i"
proof (cases "i < length (String_split CHR ''.'' v)")
  case True
  with assms have "list_all is_digit (String_split CHR ''.'' v ! i)"
    by (simp add: numeric_version_def list_all_length)
  from decimal_nonneg [OF this] True show ?thesis
    by (simp add: segment_value_def)
next
  case False
  then show ?thesis by (simp add: segment_value_def)
qed

text \<open>
  C4 (as the code has it). On version strings of dotted decimal segments below \<open>2^53\<close>,
  \<open>compareVersions\<close> returns \<open>-1\<close>, \<open>0\<close> or \<open>1\<close>; every segment is read as a non-negative
  integer and a missing one as \<open>0\<close>; the result is \<open>0\<close> when all segments are equal, and
  otherwise the first segment that differs decides it: \<open>-1\<close> when it is smaller in the
  first version and \<open>1\<close> when it is greater. In particular
  \<open>compareVersions "1.2.0" "1.10.0"\<close> is \<open>-1\<close>.
\<close>

theorem compareVersions_numeric:
  assumes n1: "numeric_version v1" and n2: "numeric_version v2"
  shows "compareVersions v1 v2 \<in> {- 1, 0, 1} \<and>
    (\<forall>i. 0 \<le> segment_value v1 i \<and> 0 \<le> segment_value v2 i) \<and>
    ((\<forall>i. segment_value v1 i = segment_value v2 i) \<longrightarrow> compareVersions v1 v2 = 0) \<and>
    (\<forall>k. (\<forall>j<k. segment_value v1 j = segment_value v2 j) \<and>
          segment_value v1 k < segment_value v2 k \<longrightarrow> compareVersions v1 v2 = - 1) \<and>
    (\<forall>k. (\<forall>j<k. segment_value v1 j = segment_value v2 j) \<and>
          segment_value v1 k > segment_value v2 k \<longrightarrow> compareVersions v1 v2 = 1) \<and>
    compareVersions ''1.2.0'' ''1.10.0'' = - 1"
proof -
  let ?p1 = "map Number_str (String_split CHR ''.'' v1)"
  let ?p2 = "map Number_str (String_split CHR ''.'' v2)"
  let ?n = "max (length ?p1) (length ?p2)"
  have cv: "compareVersions v1 v2 = compareVersions_loop ?p1 ?p2 ?n 0"
    by (simp add: compareVersions_def Let_def)
  have p1: "part_or_zero ?p1 i = Num (of_int (segment_value v1 i))" for i
    by (rule part_or_zero_numeric [OF n1])
  have p2: "part_or_zero ?p2 i = Num (of_int (segment_value v2 i))" for i
    by (rule part_or_zero_numeric [OF n2])
  have eq: "compareVersions v1 v2 = 0" if "\<forall>i. segment_value v1 i = segment_value v2 i"
    unfolding cv using that by (intro loop_equal) (simp add: p1 p2)
  have diff: "compareVersions v1 v2 = (if segment_value v1 k > segment_value v2 k then 1 else - 1)"
    if "\<forall>j<k. segment_value v1 j = segment_value v2 j" "segment_value v1 k \<noteq> segment_value v2 k"
    for k
  proof -
    from that(2) have ne: "part_or_zero ?p1 k \<noteq> part_or_zero ?p2 k" by (simp add: p1 p2)
    have "compareVersions_loop ?p1 ?p2 ?n 0 =
        (if js_less (part_or_zero ?p2 k) (part_or_zero ?p1 k) then 1 else - 1)"
      using that(1) by (intro loop_first_difference difference_in_range ne) (simp_all add: p1 p2)
    then show ?thesis by (simp add: cv p1 p2)
  qed
  have range: "compareVersions v1 v2 \<in> {- 1, 0, 1}"
  proof (cases "\<forall>i. segment_value v1 i = segment_value v2 i")
    case True
    then show ?thesis by (simp add: eq)
  next
    case False
    define k where "k = (LEAST i. segment_value v1 i \<noteq> segment_value v2 i)"
    from False have "\<exists>i. segment_value v1 i \<noteq> segment_value v2 i" by simp
    then have kne: "segment_value v1 k \<noteq> segment_value v2 k"
      unfolding k_def by (rule LeastI_ex)
    have "\<forall>j<k. segment_value v1 j = segment_value v2 j"
      unfolding k_def using not_less_Least by blast
    from diff [OF this kne] show ?thesis by simp
  qed
  have ex: "compareVersions ''1.2.0'' ''1.10.0'' = - 1" by code_simp
  have less: "compareVersions v1 v2 = - 1"
    if "(\<forall>j<k. segment_value v1 j = segment_value v2 j) \<and>
        segment_value v1 k < segment_value v2 k" for k
    using diff [of k] that by simp
  have greater: "compareVersions v1 v2 = 1"
    if "(\<forall>j<k. segment_value v1 j = segment_value v2 j) \<and>
        segment_value v1 k > segment_value v2 k" for k
    using diff [of k] that by simp
  have nonneg: "\<forall>i. 0 \<le> segment_value v1 i \<and> 0 \<le> segment_value v2 i"
    using segment_value_nonneg [OF n1] segment_value_nonneg [OF n2] by simp
  from range nonneg eq less greater ex show ?thesis by blast
qed

theorem compareVersions_numeric_witness:
  "numeric_version ''2.0'' \<and> numeric_version ''1.9.9'' \<and>
   segment_value ''2.0'' 0 > segment_value ''1.9.9'' 0 \<and>
   compareVersions ''2.0'' ''1.9.9'' = 1"
proof -
  have n1: "numeric_version ''2.0''" by code_simp
  have n2: "numeric_version ''1.9.9''" by code_simp
  have gt: "segment_value ''2.0'' 0 > segment_value ''1.9.9'' 0" by code_simp
  from compareVersions_numeric [OF n1 n2]
  have "(\<forall>j<0. segment_value ''2.0'' j = segment_value ''1.9.9'' j) \<and>
        segment_value ''2.0'' 0 > segment_value ''1.9.9'' 0 \<longrightarrow>
        compareVersions ''2.0'' ''1.9.9'' = 1"
    by blast
  with gt have "compareVersions ''2.0'' ''1.9.9'' = 1" by simp
  with n1 n2 gt show ?thesis by blast
qed

text \<open>
  C4 as the specification states it fails from \<open>2^53\<close> on: \<open>Number\<close> rounds the segment to
  a double, so that two segments of decimal digits with different values can compare equal.
  The segments \<open>9007199254740993\<close> and \<open>9007199254740992\<close> differ, and \<open>compareVersions\<close>
  returns \<open>0\<close>.
\<close>

theorem compareVersions_rounding_counterexample:
  "list_all (list_all is_digit) (String_split CHR ''.'' ''9007199254740993'') \<and>
   list_all (list_all is_digit) (String_split CHR ''.'' ''9007199254740992'') \<and>
   segment_value ''9007199254740993'' 0 = 9007199254740993 \<and>
   segment_value ''9007199254740992'' 0 = 9007199254740992 \<and>
   compareVersions ''9007199254740993'' ''9007199254740992'' = 0 \<and>
   \<not> numeric_version ''9007199254740993''"
  by code_simp

section \<open>One turn of the merge loop\<close>

lemma detect_no_conflict:
  "conflicting_fields s tgt = [] \<Longrightarrow> detectServiceConflict clk t name s tgt = (None, t)"
  by (simp add: detectServiceConflict_def)

lemma detect_conflict:
  "conflicting_fields s tgt \<noteq> [] \<Longrightarrow>
   detectServiceConflict clk t name s tgt =
     (Some \<lparr>conflict_id = (name, clk t), serviceName = name, conflict_kind = different_config,
            sourceConfig = s, targetConfig = tgt,
            description = (name, conflicting_fields s tgt), path = [],
            conflict_values = (s, tgt)\<rparr>, Suc t)"
  by (simp add: detectServiceConflict_def Let_def)

lemma step_added:
  "prop_get servers name = None \<Longrightarrow>
   mergeConfigs_step clk options (name, s) (servers, result, t) =
     (prop_set servers name s,
      result\<lparr>stats := (stats result)\<lparr>addedServices := Suc (addedServices (stats result))\<rparr>\<rparr>,
      t)"
  by (simp add: mergeConfigs_step_def mergeService_def record_service_result_def)

lemma step_updated:
  "prop_get servers name = Some tgt \<Longrightarrow> conflicting_fields s tgt = [] \<Longrightarrow>
   mergeConfigs_step clk options (name, s) (servers, result, t) =
     (prop_set servers name (fst (mergeServiceConfigs clk t s tgt (preserveMetadata options))),
      result\<lparr>stats := (stats result)\<lparr>updatedServices := Suc (updatedServices (stats result))\<rparr>\<rparr>,
      snd (mergeServiceConfigs clk t s tgt (preserveMetadata options)))"
  by (simp add: mergeConfigs_step_def mergeService_def record_service_result_def
        detect_no_conflict split: prod.splits)

lemma step_overwrite:
  "prop_get servers name = Some tgt \<Longrightarrow> conflicting_fields s tgt \<noteq> [] \<Longrightarrow>
   strategy options = OVERWRITE \<Longrightarrow>
   mergeConfigs_step clk options (name, s) (servers, result, t) =
     (prop_set servers name s,
      result\<lparr>stats := (stats result)\<lparr>updatedServices := Suc (updatedServices (stats result))\<rparr>,
             warnings := warnings result @ [Overwritten name]\<rparr>,
      Suc t)"
  by (simp add: mergeConfigs_step_def mergeService_def record_service_result_def
        detect_conflict)

lemma step_skip:
  "prop_get servers name = Some tgt \<Longrightarrow> conflicting_fields s tgt \<noteq> [] \<Longrightarrow>
   strategy options = SKIP \<Longrightarrow>
   mergeConfigs_step clk options (name, s) (servers, result, t) =
     (servers,
      result\<lparr>stats := (stats result)\<lparr>skippedServices := Suc (skippedServices (stats result))\<rparr>,
             warnings := warnings result @ [SkippedConflict name]\<rparr>,
      Suc t)"
  by (simp add: mergeConfigs_step_def mergeService_def record_service_result_def
        detect_conflict)

lemma step_merge:
  "prop_get servers name = Some tgt \<Longrightarrow> conflicting_fields s tgt \<noteq> [] \<Longrightarrow>
   strategy options = MERGE \<Longrightarrow>
   mergeConfigs_step clk options (name, s) (servers, result, t) =
     (prop_set servers name (fst (mergeServiceConfigs clk (Suc t) s tgt (preserveMetadata options))),
      result\<lparr>stats := (stats result)\<lparr>updatedServices := Suc (updatedServices (stats result))\<rparr>,
             warnings := warnings result @ [ForcedMerge name]\<rparr>,
      snd (mergeServiceConfigs clk (Suc t) s tgt (preserveMetadata options)))"
  by (simp add: mergeConfigs_step_def mergeService_def record_service_result_def
        detect_conflict split: prod.splits)

lemma step_prompt:
  "prop_get servers name = Some tgt \<Longrightarrow> conflicting_fields s tgt \<noteq> [] \<Longrightarrow>
   strategy options = PROMPT \<Longrightarrow>
   mergeConfigs_step clk options (name, s) (servers, result, t) =
     (servers,
      result\<lparr>conflicts := conflicts result @
               [\<lparr>conflict_id = (name, clk t), serviceName = name,
                 conflict_kind = different_config, sourceConfig = s, targetConfig = tgt,
                 description = (name, conflicting_fields s tgt), path = [],
                 conflict_values = (s, tgt)\<rparr>],
             stats := (stats result)\<lparr>conflictServices := Suc (conflictServices (stats result))\<rparr>\<rparr>,
      Suc t)"
  by (simp add: mergeConfigs_step_def mergeService_def record_service_result_def
        detect_conflict)

section \<open>The merge loop\<close>

lemma mergeConfigs_validated:
  assumes "merge_loop clk t0 src tgt options = (servers, result, t)"
  shows "config (fst (mergeConfigs validateConfig clk t0 src tgt options)) =
           Some (tgt\<lparr>mcpServers := servers,
                      version := merged_version (version src) (version tgt),
                      config_metadata := merged_metadata clk t0 src tgt options\<rparr>)"
    and "stats (fst (mergeConfigs validateConfig clk t0 src tgt options)) = stats result"
    and "conflicts (fst (mergeConfigs validateConfig clk t0 src tgt options)) = conflicts result"
    and "set (warnings result) \<subseteq>
           set (warnings (fst (mergeConfigs validateConfig clk t0 src tgt options)))"
  using assms
  by (auto simp: mergeConfigs_def merge_loop_def merged_metadata_def validateConfig_def Let_def
           split: prod.splits)

lemma map_of_prop_set_other:
  "n \<noteq> name \<Longrightarrow> map_of (prop_set servers name v) n = map_of servers n"
  by (simp add: prop_set_def update_conv')

lemma map_of_prop_set_own:
  "map_of servers name = Some w \<Longrightarrow> map_of (prop_set servers name v) name = Some v"
  by (simp add: prop_set_def update_conv')

lemma map_of_prop_set_new:
  "name \<noteq> ''__proto__'' \<Longrightarrow> map_of (prop_set servers name v) name = Some v"
  by (simp add: prop_set_def update_conv')

lemma prop_get_cong:
  "map_of a n = map_of b n \<Longrightarrow> prop_get a n = prop_get b n"
  by (simp add: prop_get_def)

lemma classify_cong:
  "map_of a (fst e) = map_of b (fst e) \<Longrightarrow> classify options a e = classify options b e"
  by (cases e) (simp add: classify_def prop_get_cong [of a _ b])

text \<open>What one turn of the loop does, by the outcome for its service.\<close>

lemma step_outcome:
  assumes "mergeConfigs_step clk options (name, s) (servers, result, t) = (servers', result', t')"
  shows "count_outcome oc (stats result') =
           count_outcome oc (stats result) +
           (if classify options servers (name, s) = oc then 1 else 0)"
    and "n \<noteq> name \<Longrightarrow> map_of servers' n = map_of servers n"
    and "set (warnings result) \<subseteq> set (warnings result')"
    and "set (conflicts result) \<subseteq> set (conflicts result')"
    and "classify options servers (name, s) \<in> {Skipped, Conflicted} \<Longrightarrow> servers' = servers"
proof -
  consider (add) "prop_get servers name = None"
    | (upd) tgt where "prop_get servers name = Some tgt" "conflicting_fields s tgt = []"
    | (ovw) tgt where "prop_get servers name = Some tgt" "conflicting_fields s tgt \<noteq> []"
        "strategy options = OVERWRITE"
    | (skp) tgt where "prop_get servers name = Some tgt" "conflicting_fields s tgt \<noteq> []"
        "strategy options = SKIP"
    | (mrg) tgt where "prop_get servers name = Some tgt" "conflicting_fields s tgt \<noteq> []"
        "strategy options = MERGE"
    | (prm) tgt where "prop_get servers name = Some tgt" "conflicting_fields s tgt \<noteq> []"
        "strategy options = PROMPT"
    by (cases "prop_get servers name"; cases "strategy options") auto
  then have "(count_outcome oc (stats result') =
           count_outcome oc (stats result) +
           (if classify options servers (name, s) = oc then 1 else 0)) \<and>
      (n \<noteq> name \<longrightarrow> map_of servers' n = map_of servers n) \<and>
      set (warnings result) \<subseteq> set (warnings result') \<and>
      set (conflicts result) \<subseteq> set (conflicts result') \<and>
      (classify options servers (name, s) \<in> {Skipped, Conflicted} \<longrightarrow> servers' = servers)"
  proof cases
    case add
    with assms show ?thesis
      by (cases oc) (auto simp: step_added classify_def count_outcome_def map_of_prop_set_other)
  next
    case upd
    with assms show ?thesis
      by (cases oc) (auto simp: step_updated classify_def count_outcome_def map_of_prop_set_other)
  next
    case ovw
    with assms show ?thesis
      by (cases oc) (auto simp: step_overwrite classify_def count_outcome_def map_of_prop_set_other)
  next
    case skp
    with assms show ?thesis
      by (cases oc) (auto simp: step_skip classify_def count_outcome_def)
  next
    case mrg
    with assms show ?thesis
      by (cases oc) (auto simp: step_merge classify_def count_outcome_def map_of_prop_set_other)
  next
    case prm
    with assms show ?thesis
      by (cases oc) (auto simp: step_prompt classify_def count_outcome_def)
  qed
  then show "count_outcome oc (stats result') =
           count_outcome oc (stats result) +
           (if classify options servers (name, s) = oc then 1 else 0)"
    and "n \<noteq> name \<Longrightarrow> map_of servers' n = map_of servers n"
    and "set (warnings result) \<subseteq> set (warnings result')"
    and "set (conflicts result) \<subseteq> set (conflicts result')"
    and "classify options servers (name, s) \<in> {Skipped, Conflicted} \<Longrightarrow> servers' = servers"
    by blast+
qed

lemma fold_frame:
  "fold (mergeConfigs_step clk options) entries (servers, result, t) = (servers', result', t') \<Longrightarrow>
   n \<notin> fst ` set entries \<Longrightarrow>
   map_of servers' n = map_of servers n \<and>
   set (warnings result) \<subseteq> set (warnings result') \<and>
   set (conflicts result) \<subseteq> set (conflicts result')"
proof (induction entries arbitrary: servers result t)
  case Nil
  then show ?case by simp
next
  case (Cons e es)
  obtain name s where e: "e = (name, s)" by (cases e)
  obtain s1 r1 t1 where step: "mergeConfigs_step clk options (name, s) (servers, result, t) = (s1, r1, t1)"
    by (metis prod_cases3)
  with Cons.prems e have f: "fold (mergeConfigs_step clk options) es (s1, r1, t1) = (servers', result', t')"
    by simp
  from Cons.prems e have ne: "n \<noteq> name" and nin: "n \<notin> fst ` set es" by auto
  from Cons.IH [OF f nin] step_outcome(2) [OF step ne] step_outcome(3,4) [OF step]
  show ?case by auto
qed

lemma fold_mono:
  "fold (mergeConfigs_step clk options) entries (servers, result, t) = (servers', result', t') \<Longrightarrow>
   set (warnings result) \<subseteq> set (warnings result') \<and>
   set (conflicts result) \<subseteq> set (conflicts result')"
proof (induction entries arbitrary: servers result t)
  case Nil
  then show ?case by simp
next
  case (Cons e es)
  obtain name s where e: "e = (name, s)" by (cases e)
  obtain s1 r1 t1 where step: "mergeConfigs_step clk options (name, s) (servers, result, t) = (s1, r1, t1)"
    by (metis prod_cases3)
  with Cons.prems e have f: "fold (mergeConfigs_step clk options) es (s1, r1, t1) = (servers', result', t')"
    by simp
  from Cons.IH [OF f] step_outcome(3,4) [OF step]
  show ?case by auto
qed

lemma fold_counts:
  "fold (mergeConfigs_step clk options) entries (servers, result, t) = (servers', result', t') \<Longrightarrow>
   distinct (map fst entries) \<Longrightarrow>
   count_outcome oc (stats result') =
     count_outcome oc (stats result) +
     length (filter (\<lambda>e. classify options servers e = oc) entries)"
proof (induction entries arbitrary: servers result t)
  case Nil
  then show ?case by simp
next
  case (Cons e es)
  obtain name s where e: "e = (name, s)" by (cases e)
  obtain s1 r1 t1 where step: "mergeConfigs_step clk options (name, s) (servers, result, t) = (s1, r1, t1)"
    by (metis prod_cases3)
  with Cons.prems e have f: "fold (mergeConfigs_step clk options) es (s1, r1, t1) = (servers', result', t')"
    by simp
  from Cons.prems e have d: "distinct (map fst es)" and nin: "name \<notin> fst ` set es" by auto
  have same: "classify options s1 e' = classify options servers e'" if "e' \<in> set es" for e'
  proof -
    from that nin have "fst e' \<noteq> name" by auto
    from step_outcome(2) [OF step this] show ?thesis by (rule classify_cong)
  qed
  have "filter (\<lambda>e. classify options s1 e = oc) es = filter (\<lambda>e. classify options servers e = oc) es"
    by (rule filter_cong) (simp_all add: same)
  with Cons.IH [OF f d] step_outcome(1) [OF step, of oc] e show ?case by simp
qed

lemma merge_loop_fold:
  "merge_loop clk t0 src tgt options = (servers', result', t') \<Longrightarrow>
   \<exists>r0 t1. fold (mergeConfigs_step clk options) (mcpServers src) (mcpServers tgt, r0, t1) =
              (servers', result', t') \<and>
            conflicts r0 = [] \<and> warnings r0 = [] \<and>
            addedServices (stats r0) = 0 \<and> updatedServices (stats r0) = 0 \<and>
            skippedServices (stats r0) = 0 \<and> conflictServices (stats r0) = 0"
  by (auto simp: merge_loop_def Object_entries_def empty_stats_def)


lemma fold_visit:
  assumes "fold (mergeConfigs_step clk options) entries (servers, result, t) = (servers', result', t')"
    and "distinct (map fst entries)"
    and "(name, s) \<in> set entries"
  shows "\<exists>sv r tt sv1 r1 tt1.
           map_of sv name = map_of servers name \<and>
           mergeConfigs_step clk options (name, s) (sv, r, tt) = (sv1, r1, tt1) \<and>
           map_of servers' name = map_of sv1 name \<and>
           set (warnings r1) \<subseteq> set (warnings result') \<and>
           set (conflicts r1) \<subseteq> set (conflicts result')"
  using assms
proof (induction entries arbitrary: servers result t)
  case Nil
  then show ?case by simp
next
  case (Cons e es)
  obtain n' s' where e: "e = (n', s')" by (cases e)
  obtain s1 r1 t1 where step: "mergeConfigs_step clk options (n', s') (servers, result, t) = (s1, r1, t1)"
    by (metis prod_cases3)
  with Cons.prems e have f: "fold (mergeConfigs_step clk options) es (s1, r1, t1) = (servers', result', t')"
    by simp
  from Cons.prems e have d: "distinct (map fst es)" and nin: "n' \<notin> fst ` set es" by auto
  show ?case
  proof (cases "(name, s) = e")
    case True
    with e have eq: "n' = name" "s' = s" by simp_all
    from nin eq have "name \<notin> fst ` set es" by simp
    from fold_frame [OF f this] step eq show ?thesis by blast
  next
    case False
    with Cons.prems have mem: "(name, s) \<in> set es" by simp
    with nin have ne: "name \<noteq> n'" by force
    from Cons.IH [OF f d mem] obtain sv r tt sv1 r1' tt1 where
      h: "map_of sv name = map_of s1 name"
         "mergeConfigs_step clk options (name, s) (sv, r, tt) = (sv1, r1', tt1)"
         "map_of servers' name = map_of sv1 name"
         "set (warnings r1') \<subseteq> set (warnings result')"
         "set (conflicts r1') \<subseteq> set (conflicts result')"
      by blast
    from step_outcome(2) [OF step ne] h(1) have "map_of sv name = map_of servers name" by simp
    with h show ?thesis by blast
  qed
qed


lemma step_conflict_origin:
  assumes "mergeConfigs_step clk options (name, s) (servers, result, t) = (servers', result', t')"
    and "c \<in> set (conflicts result')"
  shows "c \<in> set (conflicts result) \<or>
         (serviceName c = name \<and> classify options servers (name, s) = Conflicted)"
proof -
  consider (add) "prop_get servers name = None"
    | (upd) tgt where "prop_get servers name = Some tgt" "conflicting_fields s tgt = []"
    | (ovw) tgt where "prop_get servers name = Some tgt" "conflicting_fields s tgt \<noteq> []"
        "strategy options = OVERWRITE"
    | (skp) tgt where "prop_get servers name = Some tgt" "conflicting_fields s tgt \<noteq> []"
        "strategy options = SKIP"
    | (mrg) tgt where "prop_get servers name = Some tgt" "conflicting_fields s tgt \<noteq> []"
        "strategy options = MERGE"
    | (prm) tgt where "prop_get servers name = Some tgt" "conflicting_fields s tgt \<noteq> []"
        "strategy options = PROMPT"
    by (cases "prop_get servers name"; cases "strategy options") auto
  then show ?thesis
  proof cases
    case add
    with assms show ?thesis by (auto simp: step_added)
  next
    case upd
    with assms show ?thesis by (auto simp: step_updated)
  next
    case ovw
    with assms show ?thesis by (auto simp: step_overwrite)
  next
    case skp
    with assms show ?thesis by (auto simp: step_skip)
  next
    case mrg
    with assms show ?thesis by (auto simp: step_merge)
  next
    case prm
    with assms show ?thesis by (auto simp: step_prompt classify_def)
  qed
qed

lemma fold_conflict_origin:
  "fold (mergeConfigs_step clk options) entries (servers, result, t) = (servers', result', t') \<Longrightarrow>
   distinct (map fst entries) \<Longrightarrow>
   c \<in> set (conflicts result') \<Longrightarrow>
   c \<in> set (conflicts result) \<or>
   (\<exists>e \<in> set entries. serviceName c = fst e \<and> classify options servers e = Conflicted)"
proof (induction entries arbitrary: servers result t)
  case Nil
  then show ?case by simp
next
  case (Cons e es)
  obtain name s where e: "e = (name, s)" by (cases e)
  obtain s1 r1 t1 where step: "mergeConfigs_step clk options (name, s) (servers, result, t) = (s1, r1, t1)"
    by (metis prod_cases3)
  with Cons.prems e have f: "fold (mergeConfigs_step clk options) es (s1, r1, t1) = (servers', result', t')"
    by simp
  from Cons.prems e have d: "distinct (map fst es)" and nin: "name \<notin> fst ` set es" by auto
  have same: "classify options s1 e' = classify options servers e'" if "e' \<in> set es" for e'
  proof -
    from that nin have "fst e' \<noteq> name" by auto
    from step_outcome(2) [OF step this] show ?thesis by (rule classify_cong)
  qed
  from Cons.IH [OF f d Cons.prems(3)]
  consider "c \<in> set (conflicts r1)"
    | e' where "e' \<in> set es" "serviceName c = fst e'" "classify options s1 e' = Conflicted"
    by blast
  then show ?case
  proof cases
    case 1
    from step_conflict_origin [OF step this] e show ?thesis by auto
  next
    case 2
    with same [OF 2(1)] show ?thesis by auto
  qed
qed


section \<open>The skip strategy keeps the target's descriptor\<close>

text \<open>
  C6. Under the skip strategy, for every service name that both records hold with
  conflicting descriptors, the merged record holds the target's descriptor under that name,
  the service is counted as skipped (its outcome is \<open>Skipped\<close>, and \<open>skippedServices\<close> is
  the number of source services with that outcome), and the warnings contain the one that
  names the skipped service.
\<close>

theorem skip_keeps_target:
  assumes d: "distinct (Object_keys (mcpServers src))"
    and pn: "plain_names src"
    and st: "strategy options = SKIP"
    and src: "map_of (mcpServers src) name = Some s"
    and tgt: "map_of (mcpServers tgt) name = Some tg"
    and cf: "conflicting_fields s tg \<noteq> []"
  shows "merged_service (fst (mergeConfigs validateConfig clk t0 src tgt options)) name = Some tg \<and>
         classify options (mcpServers tgt) (name, s) = Skipped \<and>
         skippedServices (stats (fst (mergeConfigs validateConfig clk t0 src tgt options))) =
           length (filter (\<lambda>e. classify options (mcpServers tgt) e = Skipped) (mcpServers src)) \<and>
         SkippedConflict name \<in>
           set (warnings (fst (mergeConfigs validateConfig clk t0 src tgt options)))"
proof -
  obtain servers' result' t' where loop: "merge_loop clk t0 src tgt options = (servers', result', t')"
    by (metis prod_cases3)
  note res = mergeConfigs_validated [OF loop]
  from merge_loop_fold [OF loop] obtain r0 t1 where
    f: "fold (mergeConfigs_step clk options) (mcpServers src) (mcpServers tgt, r0, t1) =
          (servers', result', t')"
    and r0: "skippedServices (stats r0) = 0"
    by blast
  from d have d': "distinct (map fst (mcpServers src))" by (simp add: Object_keys_def)
  from src have mem: "(name, s) \<in> set (mcpServers src)" by (rule map_of_SomeD)
  from fold_visit [OF f d' mem] obtain sv r tt sv1 r1 tt1 where
    h: "map_of sv name = map_of (mcpServers tgt) name"
       "mergeConfigs_step clk options (name, s) (sv, r, tt) = (sv1, r1, tt1)"
       "map_of servers' name = map_of sv1 name"
       "set (warnings r1) \<subseteq> set (warnings result')"
    by blast
  from h(1) tgt have pg: "prop_get sv name = Some tg" by (simp add: prop_get_def)
  from h(2) have "sv1 = sv" "SkippedConflict name \<in> set (warnings r1)"
    by (auto simp: step_skip [OF pg cf st])
  with h tgt have kept: "map_of servers' name = Some tg"
    and warned: "SkippedConflict name \<in> set (warnings result')" by auto
  have cl: "classify options (mcpServers tgt) (name, s) = Skipped"
    using tgt cf st by (simp add: classify_def prop_get_def)
  from fold_counts [OF f d', of Skipped] r0
  have cnt: "skippedServices (stats result') =
      length (filter (\<lambda>e. classify options (mcpServers tgt) e = Skipped) (mcpServers src))"
    by (simp add: count_outcome_def)
  from res kept warned cl cnt show ?thesis by (auto simp: merged_service_def)
qed

theorem skip_keeps_target_witness:
  "distinct (Object_keys (mcpServers example_source)) \<and> plain_names example_source \<and>
   strategy (example_options SKIP) = SKIP \<and>
   map_of (mcpServers example_source) ''fs'' = Some (service ''node'' [''b'']) \<and>
   map_of (mcpServers example_target) ''fs'' = Some (service ''node'' [''a'']) \<and>
   conflicting_fields (service ''node'' [''b'']) (service ''node'' [''a'']) \<noteq> [] \<and>
   merged_service (fst (mergeConfigs validateConfig example_clock 0 example_source
      example_target (example_options SKIP))) ''fs'' = Some (service ''node'' [''a'']) \<and>
   SkippedConflict ''fs'' \<in> set (warnings (fst (mergeConfigs validateConfig example_clock 0
      example_source example_target (example_options SKIP))))"
proof -
  have h1: "distinct (Object_keys (mcpServers example_source))" by code_simp
  have h2: "plain_names example_source" by code_simp
  have h3: "strategy (example_options SKIP) = SKIP" by code_simp
  have h4: "map_of (mcpServers example_source) ''fs'' = Some (service ''node'' [''b''])"
    by code_simp
  have h5: "map_of (mcpServers example_target) ''fs'' = Some (service ''node'' [''a''])"
    by code_simp
  have h6: "conflicting_fields (service ''node'' [''b'']) (service ''node'' [''a'']) \<noteq> []"
    by code_simp
  from skip_keeps_target [OF h1 h2 h3 h4 h5 h6, of example_clock 0]
  have "merged_service (fst (mergeConfigs validateConfig example_clock 0 example_source
      example_target (example_options SKIP))) ''fs'' = Some (service ''node'' [''a''])"
    and "SkippedConflict ''fs'' \<in> set (warnings (fst (mergeConfigs validateConfig example_clock 0
      example_source example_target (example_options SKIP))))"
    by blast+
  with h1 h2 h3 h4 h5 h6 show ?thesis by blast
qed

section \<open>The prompt strategy surfaces the conflict\<close>

text \<open>
  C7. Under the prompt (default) strategy, for every service name that both records hold
  with conflicting descriptors, the conflicts of the result contain a conflict for that
  name with the two descriptors and the conflicting fields; the service is counted as
  conflicting (its outcome is \<open>Conflicted\<close>, and \<open>conflictServices\<close> is the number of source
  services with that outcome) and no service is counted as skipped; the merged record holds
  the target's descriptor under the name; and the result carries a merged record: the merge
  returns, with the conflict as data.
\<close>

theorem prompt_surfaces_conflict:
  assumes d: "distinct (Object_keys (mcpServers src))"
    and pn: "plain_names src"
    and st: "strategy options = PROMPT"
    and src: "map_of (mcpServers src) name = Some s"
    and tgt: "map_of (mcpServers tgt) name = Some tg"
    and cf: "conflicting_fields s tg \<noteq> []"
  shows "(\<exists>c \<in> set (conflicts (fst (mergeConfigs validateConfig clk t0 src tgt options))).
            serviceName c = name \<and> sourceConfig c = s \<and> targetConfig c = tg \<and>
            description c = (name, conflicting_fields s tg)) \<and>
         classify options (mcpServers tgt) (name, s) = Conflicted \<and>
         conflictServices (stats (fst (mergeConfigs validateConfig clk t0 src tgt options))) =
           length (filter (\<lambda>e. classify options (mcpServers tgt) e = Conflicted)
             (mcpServers src)) \<and>
         skippedServices (stats (fst (mergeConfigs validateConfig clk t0 src tgt options))) = 0 \<and>
         merged_service (fst (mergeConfigs validateConfig clk t0 src tgt options)) name = Some tg \<and>
         config (fst (mergeConfigs validateConfig clk t0 src tgt options)) \<noteq> None"
proof -
  obtain servers' result' t' where loop: "merge_loop clk t0 src tgt options = (servers', result', t')"
    by (metis prod_cases3)
  note res = mergeConfigs_validated [OF loop]
  from merge_loop_fold [OF loop] obtain r0 t1 where
    f: "fold (mergeConfigs_step clk options) (mcpServers src) (mcpServers tgt, r0, t1) =
          (servers', result', t')"
    and r0: "skippedServices (stats r0) = 0" "conflictServices (stats r0) = 0"
    by blast
  from d have d': "distinct (map fst (mcpServers src))" by (simp add: Object_keys_def)
  from src have mem: "(name, s) \<in> set (mcpServers src)" by (rule map_of_SomeD)
  from fold_visit [OF f d' mem] obtain sv r tt sv1 r1 tt1 where
    h: "map_of sv name = map_of (mcpServers tgt) name"
       "mergeConfigs_step clk options (name, s) (sv, r, tt) = (sv1, r1, tt1)"
       "map_of servers' name = map_of sv1 name"
       "set (conflicts r1) \<subseteq> set (conflicts result')"
    by blast
  from h(1) tgt have pg: "prop_get sv name = Some tg" by (simp add: prop_get_def)
  let ?c = "\<lparr>conflict_id = (name, clk tt), serviceName = name,
                 conflict_kind = different_config, sourceConfig = s, targetConfig = tg,
                 description = (name, conflicting_fields s tg), path = [],
                 conflict_values = (s, tg)\<rparr>"
  from h(2) have "sv1 = sv" "?c \<in> set (conflicts r1)"
    by (auto simp: step_prompt [OF pg cf st])
  with h tgt have kept: "map_of servers' name = Some tg"
    and found: "?c \<in> set (conflicts result')" by auto
  have cl: "classify options (mcpServers tgt) (name, s) = Conflicted"
    using tgt cf st by (simp add: classify_def prop_get_def)
  from fold_counts [OF f d', of Conflicted] r0
  have cnt: "conflictServices (stats result') =
      length (filter (\<lambda>e. classify options (mcpServers tgt) e = Conflicted) (mcpServers src))"
    by (simp add: count_outcome_def)
  have "classify options (mcpServers tgt) e \<noteq> Skipped" for e
    using st by (cases e) (simp add: classify_def split: option.splits)
  then have "filter (\<lambda>e. classify options (mcpServers tgt) e = Skipped) (mcpServers src) = []"
    by simp
  with fold_counts [OF f d', of Skipped] r0
  have nsk: "skippedServices (stats result') = 0"
    by (simp add: count_outcome_def)
  have "\<exists>c \<in> set (conflicts result').
            serviceName c = name \<and> sourceConfig c = s \<and> targetConfig c = tg \<and>
            description c = (name, conflicting_fields s tg)"
    using found by (intro bexI [of _ ?c]) simp_all
  with res kept cl cnt nsk show ?thesis by (auto simp: merged_service_def)
qed

theorem prompt_surfaces_conflict_witness:
  "distinct (Object_keys (mcpServers example_source)) \<and> plain_names example_source \<and>
   strategy (example_options PROMPT) = PROMPT \<and>
   map_of (mcpServers example_source) ''fs'' = Some (service ''node'' [''b'']) \<and>
   map_of (mcpServers example_target) ''fs'' = Some (service ''node'' [''a'']) \<and>
   conflicting_fields (service ''node'' [''b'']) (service ''node'' [''a'']) = [''args''] \<and>
   merged_service (fst (mergeConfigs validateConfig example_clock 0 example_source
      example_target (example_options PROMPT))) ''fs'' = Some (service ''node'' [''a'']) \<and>
   skippedServices (stats (fst (mergeConfigs validateConfig example_clock 0 example_source
      example_target (example_options PROMPT)))) = 0"
proof -
  have h1: "distinct (Object_keys (mcpServers example_source))" by code_simp
  have h2: "plain_names example_source" by code_simp
  have h3: "strategy (example_options PROMPT) = PROMPT" by code_simp
  have h4: "map_of (mcpServers example_source) ''fs'' = Some (service ''node'' [''b''])"
    by code_simp
  have h5: "map_of (mcpServers example_target) ''fs'' = Some (service ''node'' [''a''])"
    by code_simp
  have v: "conflicting_fields (service ''node'' [''b'']) (service ''node'' [''a'']) = [''args'']"
    by code_simp
  then have h6: "conflicting_fields (service ''node'' [''b'']) (service ''node'' [''a'']) \<noteq> []"
    by simp
  from prompt_surfaces_conflict [OF h1 h2 h3 h4 h5 h6, of example_clock 0]
  have "merged_service (fst (mergeConfigs validateConfig example_clock 0 example_source
      example_target (example_options PROMPT))) ''fs'' = Some (service ''node'' [''a''])"
    and "skippedServices (stats (fst (mergeConfigs validateConfig example_clock 0 example_source
      example_target (example_options PROMPT)))) = 0"
    by blast+
  with h1 h2 h3 h4 h5 v show ?thesis by blast
qed

section \<open>Services that only the source holds\<close>

text \<open>
  What holds of C5: a service that only the source holds, under a name that is not the
  name of a property of \<open>Object.prototype\<close>, is in the merged record with the source's
  descriptor, its outcome is \<open>Added\<close> whatever the strategy, \<open>addedServices\<close> is the number
  of source services with that outcome, and no conflict of the result names it.
\<close>

lemma new_service_added:
  assumes d: "distinct (Object_keys (mcpServers src))"
    and pn: "plain_names src"
    and src: "map_of (mcpServers src) name = Some s"
    and tgt: "map_of (mcpServers tgt) name = None"
    and ni: "name \<notin> set Object_prototype_names"
  shows "merged_service (fst (mergeConfigs validateConfig clk t0 src tgt options)) name = Some s \<and>
         classify options (mcpServers tgt) (name, s) = Added \<and>
         addedServices (stats (fst (mergeConfigs validateConfig clk t0 src tgt options))) =
           length (filter (\<lambda>e. classify options (mcpServers tgt) e = Added) (mcpServers src)) \<and>
         (\<forall>c \<in> set (conflicts (fst (mergeConfigs validateConfig clk t0 src tgt options))).
            serviceName c \<noteq> name)"
proof -
  obtain servers' result' t' where loop: "merge_loop clk t0 src tgt options = (servers', result', t')"
    by (metis prod_cases3)
  note res = mergeConfigs_validated [OF loop]
  from merge_loop_fold [OF loop] obtain r0 t1 where
    f: "fold (mergeConfigs_step clk options) (mcpServers src) (mcpServers tgt, r0, t1) =
          (servers', result', t')"
    and r0: "conflicts r0 = []" "addedServices (stats r0) = 0"
    by blast
  from d have d': "distinct (map fst (mcpServers src))" by (simp add: Object_keys_def)
  from src have mem: "(name, s) \<in> set (mcpServers src)" by (rule map_of_SomeD)
  from ni have np: "name \<noteq> ''__proto__''" by (auto simp: Object_prototype_names_def)
  from fold_visit [OF f d' mem] obtain sv r tt sv1 r1 tt1 where
    h: "map_of sv name = map_of (mcpServers tgt) name"
       "mergeConfigs_step clk options (name, s) (sv, r, tt) = (sv1, r1, tt1)"
       "map_of servers' name = map_of sv1 name"
    by blast
  from h(1) tgt ni have pg: "prop_get sv name = None" by (simp add: prop_get_def)
  from h(2) have "sv1 = prop_set sv name s" by (simp add: step_added [OF pg])
  with h(3) have got: "map_of servers' name = Some s" by (simp add: map_of_prop_set_new [OF np])
  have cl: "classify options (mcpServers tgt) (name, s) = Added"
    using tgt ni by (simp add: classify_def prop_get_def)
  from fold_counts [OF f d', of Added] r0
  have cnt: "addedServices (stats result') =
      length (filter (\<lambda>e. classify options (mcpServers tgt) e = Added) (mcpServers src))"
    by (simp add: count_outcome_def)
  have nc: "serviceName c \<noteq> name" if "c \<in> set (conflicts result')" for c
  proof
    assume eq: "serviceName c = name"
    from fold_conflict_origin [OF f d' that] r0 obtain e where
      e: "e \<in> set (mcpServers src)" "serviceName c = fst e"
         "classify options (mcpServers tgt) e = Conflicted"
      by auto
    obtain n' s' where ns: "e = (n', s')" by (cases e)
    with e eq have "(name, s') \<in> set (mcpServers src)" by simp
    with d' src have "s' = s" by (simp add: map_of_is_SomeI)
    with e ns eq cl show False by simp
  qed
  from res got cl cnt nc show ?thesis by (simp add: merged_service_def)
qed


text \<open>
  C5 fails for a service whose name is the name of a property of \<open>Object.prototype\<close>. The
  target holds no service \<open>constructor\<close>, yet the read of that name in the working object
  returns the inherited function, which is taken for the target's descriptor: under the
  prompt strategy the source's service is reported as a conflict and is absent from the
  merged record, and under the skip strategy it is counted as skipped.
\<close>

theorem inherited_name_not_added:
  "map_of (mcpServers inherited_name_source) ''constructor'' =
     Some (service ''npx'' [''-y'', ''pkg'']) \<and>
   map_of (mcpServers (configuration [])) ''constructor'' = None \<and>
   merged_service (fst (mergeConfigs validateConfig example_clock 0 inherited_name_source
       (configuration []) (example_options PROMPT))) ''constructor'' = None \<and>
   stats (fst (mergeConfigs validateConfig example_clock 0 inherited_name_source
       (configuration []) (example_options PROMPT))) =
     \<lparr>totalServices = 1, addedServices = 0, updatedServices = 0, skippedServices = 0,
      conflictServices = 1\<rparr> \<and>
   map serviceName (conflicts (fst (mergeConfigs validateConfig example_clock 0
       inherited_name_source (configuration []) (example_options PROMPT)))) =
     [''constructor''] \<and>
   stats (fst (mergeConfigs validateConfig example_clock 0 inherited_name_source
       (configuration []) (example_options SKIP))) =
     \<lparr>totalServices = 1, addedServices = 0, updatedServices = 0, skippedServices = 1,
      conflictServices = 0\<rparr>"
  by code_simp

section \<open>Merging a record with itself\<close>

lemma map_of_spread:
  "distinct (map fst b) \<Longrightarrow> map_of (spread a b) = map_of a ++ map_of b"
proof -
  have "distinct (map fst b) \<Longrightarrow>
        map_of (fold (\<lambda>(k, v) acc. AList.update k v acc) b a) = map_of a ++ map_of b" for a
  proof (induction b arbitrary: a)
    case Nil
    then show ?case by simp
  next
    case (Cons p b)
    obtain k v where p: "p = (k, v)" by (cases p)
    from Cons.prems p have d: "distinct (map fst b)" and k: "map_of b k = None"
      by (simp_all add: map_of_eq_None_iff)
    have e: "(map_of a)(k \<mapsto> v) ++ map_of b = (map_of a ++ map_of b)(k \<mapsto> v)"
    proof
      fix x
      show "((map_of a)(k \<mapsto> v) ++ map_of b) x = ((map_of a ++ map_of b)(k \<mapsto> v)) x"
        using k by (cases "x = k") (simp_all add: map_add_def split: option.splits)
    qed
    have "map_of (fold (\<lambda>(k, v) acc. AList.update k v acc) (p # b) a) =
          map_of (AList.update k v a) ++ map_of b"
      by (simp add: p Cons.IH [OF d])
    also have "\<dots> = (map_of a ++ map_of b)(k \<mapsto> v)"
      by (simp only: update_conv' e)
    also have "\<dots> = map_of a ++ map_of (p # b)"
      by (simp add: p)
    finally show ?case .
  qed
  then show "distinct (map fst b) \<Longrightarrow> map_of (spread a b) = map_of a ++ map_of b"
    by (simp add: spread_def)
qed

lemma map_add_self: "m ++ m = m"
  by (rule ext) (simp add: map_add_def split: option.splits)

lemma map_of_spread_self:
  "distinct (map fst a) \<Longrightarrow> map_of (spread a a) = map_of a"
  by (simp add: map_of_spread map_add_self)

lemma conflicting_fields_self: "conflicting_fields s s = []"
proof -
  have "areObjectsEqual (env s) (env s)"
    by (cases "env s") (simp_all add: areObjectsEqual_def list_all_iff)
  then show ?thesis
    by (simp add: conflicting_fields_def areArraysEqual_iff)
qed

lemma override_self: "override x x = x"
  by (cases x) (simp_all add: override_def)

lemma merged_version_self: "merged_version v v = v"
  by (cases v) (simp_all add: merged_version_def)

lemma meta_equal_mod_refresh:
  assumes "distinct (map fst m)"
  shows "meta_equal_mod (AList.update ''lastModified'' v (spread m m)) m"
  using assms
  by (simp add: meta_equal_mod_def obj_rel_eq delete_conv' update_conv' map_of_spread_self)

lemma mergeMetadata_self:
  assumes "keys_distinct m"
  shows "rel_option meta_equal_mod (fst (mergeMetadata clk t m m)) m"
  using assms
  by (cases m)
     (simp_all add: mergeMetadata_def spread_opt_def meta_equal_mod_refresh keys_distinct_def
        Object_keys_def)

lemma obj_rel_refl: "(\<And>x. R x x) \<Longrightarrow> obj_rel R a a"
  by (simp add: obj_rel_iff option.rel_refl)

lemma meta_equal_mod_refl: "meta_equal_mod m m"
  by (simp add: meta_equal_mod_def obj_rel_eq)

lemma mergeServiceConfigs_self:
  assumes "wf_service s"
  shows "service_equal_mod (fst (mergeServiceConfigs clk t s s pm)) s"
    and "\<not> pm \<Longrightarrow> service_equal (fst (mergeServiceConfigs clk t s s pm)) s"
proof -
  have env: "rel_option (obj_rel (=)) (if env s \<noteq> None then Some (spread (spread_opt (env s)) (spread_opt (env s))) else env s) (env s)"
    using assms
    by (cases "env s") (simp_all add: wf_service_def keys_distinct_def spread_opt_def
          obj_rel_eq map_of_spread_self Object_keys_def)
  have meta: "rel_option meta_equal_mod (fst (mergeMetadata clk t (metadata s) (metadata s))) (metadata s)"
    using assms by (intro mergeMetadata_self) (simp add: wf_service_def)
  have mrefl: "rel_option meta_equal_mod (metadata s) (metadata s)"
    by (simp add: option.rel_refl meta_equal_mod_refl)
  have mrefl2: "rel_option (obj_rel (=)) (metadata s) (metadata s)"
    by (simp add: option.rel_refl obj_rel_refl)
  show "service_equal_mod (fst (mergeServiceConfigs clk t s s pm)) s"
    using env meta mrefl
    by (cases "env s")
       (auto simp: mergeServiceConfigs_def service_equal_mod_def Let_def override_self
             split: prod.splits)
  show "\<not> pm \<Longrightarrow> service_equal (fst (mergeServiceConfigs clk t s s pm)) s"
    using env mrefl2
    by (cases "env s")
       (auto simp: mergeServiceConfigs_def service_equal_def Let_def override_self
             split: prod.splits)
qed

text \<open>
  C2 (as the code has it). For every record whose objects have pairwise different keys and
  for every options, the merge of the record with itself reports no conflict, and its merged
  record is structurally equal to the record up to the \<open>lastModified\<close> of the metadata
  objects; when \<open>preserveMetadata\<close> is off it is structurally equal to the record.
\<close>

theorem self_merge:
  assumes wf: "wf_config R"
  shows "conflicts (fst (mergeConfigs validateConfig clk t0 R R options)) = [] \<and>
         merged_equals_mod (fst (mergeConfigs validateConfig clk t0 R R options)) R \<and>
         (\<not> preserveMetadata options \<longrightarrow>
            merged_equals (fst (mergeConfigs validateConfig clk t0 R R options)) R)"
proof -
  let ?pm = "preserveMetadata options"
  obtain servers' result' t' where loop: "merge_loop clk t0 R R options = (servers', result', t')"
    by (metis prod_cases3)
  note res = mergeConfigs_validated [OF loop]
  from merge_loop_fold [OF loop] obtain r0 t1 where
    f: "fold (mergeConfigs_step clk options) (mcpServers R) (mcpServers R, r0, t1) =
          (servers', result', t')"
    and r0: "conflicts r0 = []" "conflictServices (stats r0) = 0"
    by blast
  from wf have d: "distinct (map fst (mcpServers R))"
    and wfs: "list_all (\<lambda>(name, s). wf_service s) (mcpServers R)"
    and wfm: "keys_distinct (config_metadata R)"
    by (simp_all add: wf_config_def Object_keys_def)
  have own: "map_of (mcpServers R) name = Some s" if "(name, s) \<in> set (mcpServers R)" for name s
    using d that by (rule map_of_is_SomeI)
  \<comment> \<open>no service conflicts with itself\<close>
  have cl: "classify options (mcpServers R) e \<noteq> Conflicted" if "e \<in> set (mcpServers R)" for e
  proof -
    obtain name s where e: "e = (name, s)" by (cases e)
    with that own have "prop_get (mcpServers R) name = Some s" by (simp add: prop_get_def)
    then show ?thesis by (simp add: e classify_def conflicting_fields_self)
  qed
  then have "filter (\<lambda>e. classify options (mcpServers R) e = Conflicted) (mcpServers R) = []"
    by (simp add: filter_empty_conv)
  with fold_counts [OF f d, of Conflicted] r0
  have "conflictServices (stats result') = 0" by (simp add: count_outcome_def)
  moreover from fold_step_conflicts [OF f] r0
  have "length (conflicts result') = conflictServices (stats result')" by simp
  ultimately have noconf: "conflicts result' = []" by simp
  \<comment> \<open>every service is replaced by the merge of the descriptor with itself\<close>
  have point: "rel_option (\<lambda>a b. service_equal_mod a b \<and> (\<not> ?pm \<longrightarrow> service_equal a b))
                 (map_of servers' name) (map_of (mcpServers R) name)" for name
  proof (cases "map_of (mcpServers R) name")
    case None
    then have "name \<notin> fst ` set (mcpServers R)" by (simp add: map_of_eq_None_iff)
    from fold_frame [OF f this] None show ?thesis by simp
  next
    case (Some s)
    then have mem: "(name, s) \<in> set (mcpServers R)" by (rule map_of_SomeD)
    with wfs have ws: "wf_service s" by (auto simp: list_all_iff)
    from fold_visit [OF f d mem] obtain sv r tt sv1 r1 tt1 where
      h: "map_of sv name = map_of (mcpServers R) name"
         "mergeConfigs_step clk options (name, s) (sv, r, tt) = (sv1, r1, tt1)"
         "map_of servers' name = map_of sv1 name"
      by blast
    from h(1) Some have pg: "prop_get sv name = Some s" and o: "map_of sv name = Some s"
      by (simp_all add: prop_get_def)
    from h(2) have "sv1 = prop_set sv name (fst (mergeServiceConfigs clk tt s s ?pm))"
      by (simp add: step_updated [OF pg conflicting_fields_self])
    with h(3) have "map_of servers' name = Some (fst (mergeServiceConfigs clk tt s s ?pm))"
      by (simp add: map_of_prop_set_own [OF o])
    with Some mergeServiceConfigs_self [OF ws, where clk = clk and t = tt and pm = "?pm"]
    show ?thesis by simp
  qed
  have servers_mod: "obj_rel service_equal_mod servers' (mcpServers R)"
    unfolding obj_rel_iff
  proof
    fix k
    from point [of k] show "rel_option service_equal_mod (map_of servers' k) (map_of (mcpServers R) k)"
      by (rule option.rel_mono_strong) simp
  qed
  have servers_eq: "obj_rel service_equal servers' (mcpServers R)" if "\<not> ?pm"
    unfolding obj_rel_iff
  proof
    fix k
    from point [of k] show "rel_option service_equal (map_of servers' k) (map_of (mcpServers R) k)"
      by (rule option.rel_mono_strong) (simp add: that)
  qed
  have meta_mod: "rel_option meta_equal_mod (merged_metadata clk t0 R R options) (config_metadata R)"
    using mergeMetadata_self [OF wfm, of clk t0]
    by (simp add: merged_metadata_def option.rel_refl meta_equal_mod_refl)
  have meta_eq: "rel_option (obj_rel (=)) (merged_metadata clk t0 R R options) (config_metadata R)"
    if "\<not> ?pm"
    using that by (simp add: merged_metadata_def option.rel_refl obj_rel_refl)
  from noconf res(3) have "conflicts (fst (mergeConfigs validateConfig clk t0 R R options)) = []"
    by simp
  moreover have "merged_equals_mod (fst (mergeConfigs validateConfig clk t0 R R options)) R"
    using servers_mod meta_mod
    by (simp add: merged_equals_mod_def res(1) config_equal_mod_def merged_version_self)
  moreover have "merged_equals (fst (mergeConfigs validateConfig clk t0 R R options)) R"
    if "\<not> ?pm"
    using servers_eq [OF that] meta_eq [OF that]
    by (simp add: merged_equals_def res(1) config_equal_def merged_version_self)
  ultimately show ?thesis by blast
qed


theorem self_merge_witness:
  "wf_config example_record \<and>
   conflicts (fst (mergeConfigs validateConfig example_clock 0 example_record example_record
      preserving_options)) = [] \<and>
   merged_equals_mod (fst (mergeConfigs validateConfig example_clock 0 example_record
      example_record preserving_options)) example_record \<and>
   \<not> preserveMetadata (example_options SKIP) \<and>
   merged_equals (fst (mergeConfigs validateConfig example_clock 0 example_record
      example_record (example_options SKIP))) example_record"
proof -
  have w: "wf_config example_record" by code_simp
  have p: "\<not> preserveMetadata (example_options SKIP)" by code_simp
  from self_merge [OF w, of example_clock 0 preserving_options]
  have "conflicts (fst (mergeConfigs validateConfig example_clock 0 example_record
      example_record preserving_options)) = []"
    and "merged_equals_mod (fst (mergeConfigs validateConfig example_clock 0 example_record
      example_record preserving_options)) example_record"
    by blast+
  moreover from self_merge [OF w, of example_clock 0 "example_options SKIP"] p
  have "merged_equals (fst (mergeConfigs validateConfig example_clock 0 example_record
      example_record (example_options SKIP))) example_record"
    by blast
  ultimately show ?thesis using w p by blast
qed

text \<open>
  C2 as the specification states it fails: with \<open>preserveMetadata\<close> on, the merge of a
  record with itself sets \<open>lastModified\<close> of its metadata to the time of the merge, and the
  merged record differs from the record.
\<close>

theorem self_merge_counterexample:
  "\<not> merged_equals (fst (mergeConfigs validateConfig example_clock 0 example_record
        example_record preserving_options)) example_record"
  by code_simp

section \<open>No operation writes to its inputs\<close>

lemma unchanged_refl: "unchanged h h"
  by (simp add: unchanged_def)

lemma unchanged_length: "unchanged h0 h \<Longrightarrow> length h0 \<le> length h"
proof -
  assume "unchanged h0 h"
  then have "length (take (length h0) h) = length h0" by (simp add: unchanged_def)
  then show ?thesis by simp
qed

lemma unchanged_append: "unchanged h0 h \<Longrightarrow> unchanged h0 (h @ xs)"
  using unchanged_length [of h0 h] by (simp add: unchanged_def)

lemma unchanged_alloc: "unchanged h0 h \<Longrightarrow> alloc h ob = (a, h') \<Longrightarrow> unchanged h0 h'"
  by (auto simp: alloc_def unchanged_append)

lemma unchanged_update:
  "unchanged h0 h \<Longrightarrow> length h0 \<le> a \<Longrightarrow> unchanged h0 (update_cell h a f)"
  by (simp add: unchanged_def update_cell_def split: option.splits)

lemma unchanged_trans:
  assumes "unchanged h0 h1" and "unchanged h1 h2"
  shows "unchanged h0 h2"
proof -
  from assms(1) have le: "length h0 \<le> length h1" by (rule unchanged_length)
  have "take (length h0) h2 = take (length h0) (take (length h1) h2)"
    using le by (simp add: min_def)
  also have "\<dots> = take (length h0) h1" using assms(2) by (simp add: unchanged_def)
  also have "\<dots> = h0" using assms(1) by (simp add: unchanged_def)
  finally show ?thesis by (simp add: unchanged_def)
qed

lemma alloc_fresh: "alloc h ob = (a, h') \<Longrightarrow> a = length h \<and> h' = h @ [ob]"
  by (auto simp: alloc_def)

lemma update_cell_length [simp]: "length (update_cell h a f) = length h"
  by (simp add: update_cell_def split: option.splits)

lemma mergeMetadata_heap_frame:
  assumes "mergeMetadata_heap clk t h sm tm = (m, h', t')"
  shows "unchanged h h'"
  using assms
  by (auto simp: mergeMetadata_heap_def alloc_def unchanged_append unchanged_refl
           split: if_splits)

lemma merge_env_frame:
  "unchanged h0 h \<Longrightarrow> length h0 \<le> merged \<Longrightarrow> unchanged h0 (merge_env h merged sc tc)"
  by (simp add: merge_env_def alloc_def unchanged_update unchanged_append)

lemma merge_metadata_frame:
  assumes "merge_metadata clk t h merged sm tm pm = (h', t')"
    and "unchanged h0 h" and "length h0 \<le> merged"
  shows "unchanged h0 h'"
proof (cases pm)
  case False
  with assms show ?thesis by (simp add: merge_metadata_def)
next
  case True
  obtain m h1 t1 where mm: "mergeMetadata_heap clk t h sm tm = (m, h1, t1)"
    by (metis prod_cases3)
  with True assms(1) have "h' = update_cell h1 merged (set_metadata m)"
    by (simp add: merge_metadata_def)
  moreover from unchanged_trans [OF assms(2) mergeMetadata_heap_frame [OF mm]]
  have "unchanged h0 h1" .
  ultimately show ?thesis using assms(3) by (simp add: unchanged_update)
qed

lemma mergeServiceConfigs_heap_frame:
  assumes "mergeServiceConfigs_heap clk t h src tgt pm = (merged, h', t')"
  shows "unchanged h h' \<and> merged = length h"
proof -
  let ?sc = "service_cell_at h src"
  let ?tc = "target_cell h tgt"
  let ?h1 = "h @ [HService (spread_cells ?tc ?sc)]"
  from assms have mg: "merged = length h"
    and mm: "merge_metadata clk t (merge_env ?h1 (length h) ?sc ?tc) (length h)
               (s_metadata ?sc) (s_metadata ?tc) pm = (h', t')"
    by (auto simp: mergeServiceConfigs_heap_def alloc_def Let_def split: prod.splits)
  have "unchanged h ?h1" by (simp add: unchanged_append unchanged_refl)
  then have "unchanged h (merge_env ?h1 (length h) ?sc ?tc)"
    by (rule merge_env_frame) simp
  from merge_metadata_frame [OF mm this] mg show ?thesis by simp
qed

lemma copy_service_frame: "copy_service h a = (b, h') \<Longrightarrow> unchanged h h' \<and> b = length h"
  by (auto simp: copy_service_def alloc_def unchanged_append unchanged_refl)

lemma mergeService_heap_frame:
  assumes "mergeService_heap clk t h name src tgt options = (r, h', t')"
  shows "unchanged h h'"
proof (cases tgt)
  case None
  with assms show ?thesis
    by (auto simp: mergeService_heap_def split: prod.splits dest: copy_service_frame)
next
  case (Some tr)
  obtain c t1 where det: "detectServiceConflict_heap clk t h name src tr = (c, t1)"
    by (cases "detectServiceConflict_heap clk t h name src tr")
  show ?thesis
  proof (cases c)
    case None
    with assms Some det show ?thesis
      by (auto simp: mergeService_heap_def split: prod.splits
               dest: mergeServiceConfigs_heap_frame)
  next
    case (Some cf)
    with assms \<open>tgt = Some tr\<close> det show ?thesis
      by (cases "strategy options")
         (auto simp: mergeService_heap_def unchanged_refl split: prod.splits
               dest: mergeServiceConfigs_heap_frame copy_service_frame)
  qed
qed






lemma cell_unchanged: "unchanged h h' \<Longrightarrow> a < length h \<Longrightarrow> cell h' a = cell h a"
proof -
  assume u: "unchanged h h'" and a: "a < length h"
  from u have "length h \<le> length h'" by (rule unchanged_length)
  moreover from u a have "h' ! a = h ! a"
    by (metis unchanged_def nth_take)
  ultimately show ?thesis using a by (simp add: cell_def)
qed











section \<open>The two models agree\<close>

text \<open>
  The merge on the store is the merge of the values: what the first model computes from
  two configurations is what the second leaves in the store. The proof follows the
  operations one by one; each keeps the store well typed and keeps what was there to read.
\<close>

lemma same_but_servers_refl [simp]: "same_but_servers a a"
  by (simp add: same_but_servers_def split: hobj.splits)

lemma same_but_servers_trans:
  "same_but_servers a b \<Longrightarrow> same_but_servers b c \<Longrightarrow> same_but_servers a c"
  by (auto simp: same_but_servers_def split: hobj.splits)

lemma same_but_servers_kind: "same_but_servers a b \<Longrightarrow> kind_of b = kind_of a"
  by (auto simp: same_but_servers_def kind_of_def split: hobj.splits)

lemma extends_nth: "extends h h' \<Longrightarrow> a < length h \<Longrightarrow> same_but_servers (h ! a) (h' ! a)"
  by (simp add: extends_def list_all_iff)

lemma extends_length: "extends h h' \<Longrightarrow> length h \<le> length h'"
  by (simp add: extends_def)

lemma extendsI:
  "length h \<le> length h' \<Longrightarrow> (\<And>a. a < length h \<Longrightarrow> same_but_servers (h ! a) (h' ! a)) \<Longrightarrow>
   extends h h'"
  by (simp add: extends_def list_all_iff)

lemma extends_refl: "extends h h"
  by (rule extendsI) simp_all

lemma extends_trans:
  assumes "extends h0 h1" and "extends h1 h2"
  shows "extends h0 h2"
proof (rule extendsI)
  from assms show "length h0 \<le> length h2" by (meson extends_length le_trans)
next
  fix a assume a: "a < length h0"
  with assms(1) have 1: "same_but_servers (h0 ! a) (h1 ! a)" by (rule extends_nth)
  from a extends_length [OF assms(1)] have "a < length h1" by simp
  with assms(2) have "same_but_servers (h1 ! a) (h2 ! a)" by (rule extends_nth)
  with 1 show "same_but_servers (h0 ! a) (h2 ! a)" by (rule same_but_servers_trans)
qed

lemma extends_alloc: "alloc h ob = (a, h') \<Longrightarrow> extends h h'"
  by (rule extendsI) (auto simp: alloc_def nth_append)

lemma extends_update_fresh:
  assumes "extends h0 h" and "length h0 \<le> a"
  shows "extends h0 (update_cell h a f)"
proof (rule extendsI)
  from assms(1) show "length h0 \<le> length (update_cell h a f)"
    by (simp add: extends_length)
next
  fix b assume b: "b < length h0"
  with assms(2) have "update_cell h a f ! b = h ! b"
    by (simp add: update_cell_def split: option.splits)
  with extends_nth [OF assms(1) b] show "same_but_servers (h0 ! b) (update_cell h a f ! b)"
    by simp
qed

lemma same_but_servers_set_entry: "same_but_servers ob (set_entry name v ob)"
  by (cases ob) (simp_all add: same_but_servers_def)

lemma extends_set_entry: "extends h (update_cell h a (set_entry name v))"
proof (rule extendsI)
  show "length h \<le> length (update_cell h a (set_entry name v))" by simp
next
  fix b assume b: "b < length h"
  show "same_but_servers (h ! b) (update_cell h a (set_entry name v) ! b)"
  proof (cases "b = a")
    case True
    with b show ?thesis
      by (simp add: update_cell_def cell_def same_but_servers_set_entry)
  next
    case False
    then show ?thesis by (simp add: update_cell_def split: option.splits)
  qed
qed

lemma is_kind_extends: "extends h h' \<Longrightarrow> is_kind k h a \<Longrightarrow> is_kind k h' a"
  using extends_length [of h h'] extends_nth [of h h' a]
  by (auto simp: is_kind_def dest: same_but_servers_kind)

lemma ref_ok_extends: "extends h h' \<Longrightarrow> ref_ok k h r \<Longrightarrow> ref_ok k h' r"
  by (cases r) (auto simp: ref_ok_def intro: is_kind_extends)

lemma cell_extends:
  assumes e: "extends h h'" and a: "a < length h" and k: "kind_of (h ! a) \<noteq> KServers"
  shows "cell h' a = cell h a"
proof -
  from extends_nth [OF e a] k have "h' ! a = h ! a"
    by (auto simp: same_but_servers_def kind_of_def split: hobj.splits)
  with a extends_length [OF e] show ?thesis by (simp add: cell_def)
qed

lemma args_at_extends:
  "extends h h' \<Longrightarrow> ref_ok KArgs h r \<Longrightarrow> args_at h' r = args_at h r"
  by (cases r) (auto simp: args_at_def ref_ok_def is_kind_def cell_extends)

lemma env_at_extends:
  "extends h h' \<Longrightarrow> ref_ok KEnv h r \<Longrightarrow> env_at h' r = env_at h r"
  by (cases r) (auto simp: env_at_def ref_ok_def is_kind_def cell_extends)

lemma meta_at_extends:
  "extends h h' \<Longrightarrow> ref_ok KMeta h r \<Longrightarrow> meta_at h' r = meta_at h r"
  by (cases r) (auto simp: meta_at_def ref_ok_def is_kind_def cell_extends)

lemma view_cell_extends:
  "extends h h' \<Longrightarrow> typed_service h c \<Longrightarrow> view_cell h' c = view_cell h c"
  by (simp add: view_cell_def typed_service_def args_at_extends env_at_extends meta_at_extends)

lemma service_cell_at_extends:
  "extends h h' \<Longrightarrow> is_kind KService h a \<Longrightarrow> service_cell_at h' a = service_cell_at h a"
  by (simp add: service_cell_at_def is_kind_def cell_extends)

lemma config_cell_at_extends:
  "extends h h' \<Longrightarrow> is_kind KConfig h a \<Longrightarrow> config_cell_at h' a = config_cell_at h a"
  by (simp add: config_cell_at_def is_kind_def cell_extends)

lemma extends_same_kinds: "extends h h' \<Longrightarrow> same_kinds h h'"
  by (auto simp: same_kinds_def extends_def list_all_iff dest: same_but_servers_kind)

lemma same_kinds_update:
  assumes "\<And>ob. kind_of (f ob) = kind_of ob"
  shows "same_kinds h (update_cell h a f)"
  unfolding same_kinds_def list_all_iff
proof (intro conjI ballI)
  show "length h \<le> length (update_cell h a f)" by simp
next
  fix b assume "b \<in> set [0..<length h]"
  then have b: "b < length h" by simp
  show "kind_of (update_cell h a f ! b) = kind_of (h ! b)"
  proof (cases "b = a")
    case True
    with b assms show ?thesis by (simp add: update_cell_def cell_def)
  next
    case False
    then show ?thesis by (simp add: update_cell_def split: option.splits)
  qed
qed

lemma is_kind_kinds: "same_kinds h h' \<Longrightarrow> is_kind k h a \<Longrightarrow> is_kind k h' a"
  by (auto simp: is_kind_def same_kinds_def list_all_iff)

lemma ref_ok_kinds: "same_kinds h h' \<Longrightarrow> ref_ok k h r \<Longrightarrow> ref_ok k h' r"
  by (cases r) (auto simp: ref_ok_def intro: is_kind_kinds)

lemma typed_servers_kinds: "same_kinds h h' \<Longrightarrow> typed_servers h m \<Longrightarrow> typed_servers h' m"
  by (auto simp: typed_servers_def list_all_iff intro: is_kind_kinds)

lemma typed_obj_kinds: "same_kinds h h' \<Longrightarrow> typed_obj h ob \<Longrightarrow> typed_obj h' ob"
  by (cases ob)
     (auto simp: typed_obj_def typed_config_def typed_service_def
           intro: ref_ok_kinds typed_servers_kinds)

lemma well_typedI: "(\<And>a. a < length h \<Longrightarrow> typed_obj h (h ! a)) \<Longrightarrow> well_typed h"
  by (auto simp: well_typed_def list_all_length)

lemma well_typed_nth: "well_typed h \<Longrightarrow> a < length h \<Longrightarrow> typed_obj h (h ! a)"
  by (simp add: well_typed_def list_all_length)

lemma well_typed_alloc:
  assumes w: "well_typed h" and t: "typed_obj h ob" and al: "alloc h ob = (a, h')"
  shows "well_typed h'"
proof (rule well_typedI)
  from al have h': "h' = h @ [ob]" and a: "a = length h" by (auto simp: alloc_def)
  have k: "same_kinds h h'" by (rule extends_same_kinds [OF extends_alloc [OF al]])
  fix b assume "b < length h'"
  with h' have "b < length h \<or> b = length h" by auto
  then show "typed_obj h' (h' ! b)"
  proof
    assume b: "b < length h"
    with h' have "h' ! b = h ! b" by (simp add: nth_append)
    with typed_obj_kinds [OF k well_typed_nth [OF w b]] show ?thesis by simp
  next
    assume "b = length h"
    with h' have "h' ! b = ob" by simp
    with typed_obj_kinds [OF k t] show ?thesis by simp
  qed
qed

lemma is_kind_alloc: "alloc h ob = (a, h') \<Longrightarrow> is_kind (kind_of ob) h' a"
  by (auto simp: alloc_def is_kind_def)

lemma well_typed_update:
  assumes w: "well_typed h" and kf: "\<And>ob. kind_of (f ob) = kind_of ob"
    and t: "a < length h \<Longrightarrow> typed_obj h (f (h ! a))"
  shows "well_typed (update_cell h a f)"
proof (rule well_typedI)
  have k: "same_kinds h (update_cell h a f)" by (rule same_kinds_update [OF kf])
  fix b assume "b < length (update_cell h a f)"
  then have b: "b < length h" by simp
  show "typed_obj (update_cell h a f) (update_cell h a f ! b)"
  proof (cases "b = a")
    case True
    with b have "update_cell h a f ! b = f (h ! a)" by (simp add: update_cell_def cell_def)
    with typed_obj_kinds [OF k t] True b show ?thesis by simp
  next
    case False
    then have "update_cell h a f ! b = h ! b" by (simp add: update_cell_def split: option.splits)
    with typed_obj_kinds [OF k well_typed_nth [OF w b]] show ?thesis by simp
  qed
qed

lemma typed_service_empty [simp]: "typed_service h empty_service_cell"
  by (simp add: typed_service_def empty_service_cell_def ref_ok_def)

lemma typed_config_empty [simp]: "typed_config h empty_config_cell"
  by (simp add: typed_config_def empty_config_cell_def ref_ok_def)

lemma typed_service_cell_at: "well_typed h \<Longrightarrow> typed_service h (service_cell_at h a)"
  using well_typed_nth [of h a]
  by (auto simp: service_cell_at_def cell_def typed_obj_def split: hobj.splits)

lemma typed_target_cell: "well_typed h \<Longrightarrow> typed_service h (target_cell h tr)"
  by (cases tr) (simp_all add: target_cell_def typed_service_cell_at)

lemma typed_config_cell_at: "well_typed h \<Longrightarrow> typed_config h (config_cell_at h a)"
  using well_typed_nth [of h a]
  by (auto simp: config_cell_at_def cell_def typed_obj_def split: hobj.splits)

lemma typed_servers_at: "well_typed h \<Longrightarrow> typed_servers h (servers_at h r)"
proof (cases r)
  case None
  then show ?thesis by (simp add: servers_at_def typed_servers_def)
next
  case (Some a)
  assume "well_typed h"
  with Some show ?thesis
    using well_typed_nth [of h a]
    by (auto simp: servers_at_def cell_def typed_obj_def typed_servers_def split: hobj.splits)
qed

lemma service_at_extends:
  assumes e: "extends h h'" and w: "well_typed h" and a: "is_kind KService h a"
  shows "service_at h' a = service_at h a"
  by (simp add: service_at_def service_cell_at_extends [OF e a]
        view_cell_extends [OF e typed_service_cell_at [OF w]])

lemma target_view_extends:
  assumes e: "extends h h'" and w: "well_typed h"
    and a: "case tr of Own a \<Rightarrow> is_kind KService h a | Inherited \<Rightarrow> True"
  shows "view_cell h' (target_cell h' tr) = view_cell h (target_cell h tr)"
proof (cases tr)
  case (Own b)
  with a have "is_kind KService h b" by simp
  from service_at_extends [OF e w this] Own show ?thesis
    by (simp add: target_cell_def service_at_def)
next
  case Inherited
  then show ?thesis
    by (simp add: target_cell_def view_cell_extends [OF e])
qed

lemma services_view_extends:
  assumes e: "extends h h'" and w: "well_typed h" and t: "typed_servers h m"
  shows "services_view h' m = services_view h m"
  unfolding services_view_def
proof (rule map_cong [OF refl])
  fix x assume x: "x \<in> set m"
  obtain name a where xa: "x = (name, a)" by (cases x)
  with x t have "is_kind KService h a" by (auto simp: typed_servers_def list_all_iff)
  from service_at_extends [OF e w this] xa
  show "(case x of (name, a) \<Rightarrow> (name, service_at h' a)) =
        (case x of (name, a) \<Rightarrow> (name, service_at h a))" by simp
qed

lemma env_at_None: "ref_ok KEnv h r \<Longrightarrow> (env_at h r = None) = (r = None)"
  by (cases r) (auto simp: env_at_def ref_ok_def is_kind_def cell_def kind_of_def split: hobj.splits)

lemma meta_at_None: "ref_ok KMeta h r \<Longrightarrow> (meta_at h r = None) = (r = None)"
  by (cases r) (auto simp: meta_at_def ref_ok_def is_kind_def cell_def kind_of_def split: hobj.splits)

lemma args_at_None: "ref_ok KArgs h r \<Longrightarrow> (args_at h r = None) = (r = None)"
  by (cases r) (auto simp: args_at_def ref_ok_def is_kind_def cell_def kind_of_def split: hobj.splits)

lemma args_at_override:
  "ref_ok KArgs h a \<Longrightarrow> args_at h (override a b) = override (args_at h a) (args_at h b)"
  using args_at_None [of h a] by (cases a; cases "args_at h a") (auto simp: override_def)

lemma env_at_override:
  "ref_ok KEnv h a \<Longrightarrow> env_at h (override a b) = override (env_at h a) (env_at h b)"
  using env_at_None [of h a] by (cases a; cases "env_at h a") (auto simp: override_def)

lemma meta_at_override:
  "ref_ok KMeta h a \<Longrightarrow> meta_at h (override a b) = override (meta_at h a) (meta_at h b)"
  using meta_at_None [of h a] by (cases a; cases "meta_at h a") (auto simp: override_def)

lemma ref_ok_override: "ref_ok k h a \<Longrightarrow> ref_ok k h b \<Longrightarrow> ref_ok k h (override a b)"
  by (cases a) (simp_all add: override_def)

lemma same_kinds_refl: "same_kinds h h"
  by (simp add: same_kinds_def list_all_iff)

lemma same_kinds_trans: "same_kinds h0 h1 \<Longrightarrow> same_kinds h1 h2 \<Longrightarrow> same_kinds h0 h2"
  by (auto simp: same_kinds_def list_all_iff)

lemma is_leaf_kind: "kind_of a = kind_of b \<Longrightarrow> is_leaf a = is_leaf b"
  by (auto simp: kind_of_def is_leaf_def split: hobj.splits)

lemma keeps_leaves_refl: "keeps_leaves h h"
  by (simp add: keeps_leaves_def same_kinds_refl list_all_iff)

lemma keeps_leaves_trans:
  assumes 1: "keeps_leaves h0 h1" and 2: "keeps_leaves h1 h2"
  shows "keeps_leaves h0 h2"
  unfolding keeps_leaves_def list_all_iff
proof (intro conjI ballI impI)
  from 1 2 show "same_kinds h0 h2" by (auto simp: keeps_leaves_def intro: same_kinds_trans)
next
  fix a assume "a \<in> set [0..<length h0]" and l: "is_leaf (h0 ! a)"
  then have a: "a < length h0" by simp
  from 1 have le: "length h0 \<le> length h1" by (simp add: keeps_leaves_def same_kinds_def)
  from 1 a l have e1: "h1 ! a = h0 ! a" by (simp add: keeps_leaves_def list_all_iff)
  with 2 a le l have "h2 ! a = h1 ! a" by (simp add: keeps_leaves_def list_all_iff)
  with e1 show "h2 ! a = h0 ! a" by simp
qed

lemma extends_keeps_leaves: "extends h h' \<Longrightarrow> keeps_leaves h h'"
  unfolding keeps_leaves_def list_all_iff
proof (intro conjI ballI impI)
  assume "extends h h'" then show "same_kinds h h'" by (rule extends_same_kinds)
next
  fix a assume e: "extends h h'" and "a \<in> set [0..<length h]" and l: "is_leaf (h ! a)"
  then have "same_but_servers (h ! a) (h' ! a)" by (simp add: extends_nth)
  with l show "h' ! a = h ! a"
    by (auto simp: same_but_servers_def is_leaf_def split: hobj.splits)
qed

lemma keeps_leaves_alloc: "alloc h ob = (a, h') \<Longrightarrow> keeps_leaves h h'"
  by (rule extends_keeps_leaves [OF extends_alloc])

lemma leaf_safe_set_env [simp]: "leaf_safe (set_env e)"
  unfolding leaf_safe_def
proof
  fix ob show "kind_of (set_env e ob) = kind_of ob \<and> (is_leaf ob \<longrightarrow> set_env e ob = ob)"
    by (cases ob) (simp_all add: kind_of_def is_leaf_def)
qed

lemma leaf_safe_set_metadata [simp]: "leaf_safe (set_metadata m)"
  unfolding leaf_safe_def
proof
  fix ob show "kind_of (set_metadata m ob) = kind_of ob \<and> (is_leaf ob \<longrightarrow> set_metadata m ob = ob)"
    by (cases ob) (simp_all add: kind_of_def is_leaf_def)
qed

lemma leaf_safe_set_version [simp]: "leaf_safe (set_version v)"
  unfolding leaf_safe_def
proof
  fix ob show "kind_of (set_version v ob) = kind_of ob \<and> (is_leaf ob \<longrightarrow> set_version v ob = ob)"
    by (cases ob) (simp_all add: kind_of_def is_leaf_def)
qed

lemma leaf_safe_set_entry [simp]: "leaf_safe (set_entry name v)"
  unfolding leaf_safe_def
proof
  fix ob show "kind_of (set_entry name v ob) = kind_of ob \<and> (is_leaf ob \<longrightarrow> set_entry name v ob = ob)"
    by (cases ob) (simp_all add: kind_of_def is_leaf_def)
qed

lemma leaf_safe_kind: "leaf_safe f \<Longrightarrow> kind_of (f ob) = kind_of ob"
  by (simp add: leaf_safe_def)

lemma update_cell_same: "a < length h \<Longrightarrow> update_cell h a f ! a = f (h ! a)"
  by (simp add: update_cell_def cell_def)

lemma update_cell_other: "b \<noteq> a \<Longrightarrow> update_cell h a f ! b = h ! b"
  by (simp add: update_cell_def split: option.splits)

lemma keeps_leaves_update:
  assumes f: "leaf_safe f"
  shows "keeps_leaves h (update_cell h a f)"
  unfolding keeps_leaves_def list_all_iff
proof (intro conjI ballI impI)
  from f show "same_kinds h (update_cell h a f)"
    by (intro same_kinds_update) (simp add: leaf_safe_def)
next
  fix b assume "b \<in> set [0..<length h]" and l: "is_leaf (h ! b)"
  then have b: "b < length h" by simp
  show "update_cell h a f ! b = h ! b"
  proof (cases "b = a")
    case True
    with b l f show ?thesis by (simp add: update_cell_same leaf_safe_def)
  next
    case False
    then show ?thesis by (rule update_cell_other)
  qed
qed

lemma keeps_leaves_kinds: "keeps_leaves h h' \<Longrightarrow> same_kinds h h'"
  by (simp add: keeps_leaves_def)

lemma cell_keeps:
  assumes e: "keeps_leaves h h'" and a: "a < length h" and k: "is_leaf (h ! a)"
  shows "cell h' a = cell h a"
proof -
  from e a k have "h' ! a = h ! a" by (simp add: keeps_leaves_def list_all_iff)
  moreover from e have "length h \<le> length h'" by (simp add: keeps_leaves_def same_kinds_def)
  ultimately show ?thesis using a by (simp add: cell_def)
qed

lemma args_at_keeps:
  "keeps_leaves h h' \<Longrightarrow> ref_ok KArgs h r \<Longrightarrow> args_at h' r = args_at h r"
  by (cases r)
     (auto simp: args_at_def ref_ok_def is_kind_def cell_keeps is_leaf_def kind_of_def
           split: hobj.splits)

lemma env_at_keeps:
  "keeps_leaves h h' \<Longrightarrow> ref_ok KEnv h r \<Longrightarrow> env_at h' r = env_at h r"
  by (cases r)
     (auto simp: env_at_def ref_ok_def is_kind_def cell_keeps is_leaf_def kind_of_def
           split: hobj.splits)

lemma meta_at_keeps:
  "keeps_leaves h h' \<Longrightarrow> ref_ok KMeta h r \<Longrightarrow> meta_at h' r = meta_at h r"
  by (cases r)
     (auto simp: meta_at_def ref_ok_def is_kind_def cell_keeps is_leaf_def kind_of_def
           split: hobj.splits)

lemma view_cell_keeps:
  "keeps_leaves h h' \<Longrightarrow> typed_service h c \<Longrightarrow> view_cell h' c = view_cell h c"
  by (simp add: view_cell_def typed_service_def args_at_keeps env_at_keeps meta_at_keeps)

lemma typed_service_kinds: "same_kinds h h' \<Longrightarrow> typed_service h c \<Longrightarrow> typed_service h' c"
  by (auto simp: typed_service_def intro: ref_ok_kinds)

lemma typed_config_kinds: "same_kinds h h' \<Longrightarrow> typed_config h c \<Longrightarrow> typed_config h' c"
  by (auto simp: typed_config_def intro: ref_ok_kinds)

text \<open>Reads of an object that was just created, and of a property that was just written.\<close>

lemma alloc_service_cell: "alloc h (HService c) = (a, h') \<Longrightarrow> service_cell_at h' a = c"
  by (auto simp: alloc_def service_cell_at_def cell_def)

lemma alloc_env: "alloc h (HEnv e) = (a, h') \<Longrightarrow> env_at h' (Some a) = Some e"
  by (auto simp: alloc_def env_at_def cell_def)

lemma alloc_meta: "alloc h (HMeta m) = (a, h') \<Longrightarrow> meta_at h' (Some a) = Some m"
  by (auto simp: alloc_def meta_at_def cell_def)

lemma alloc_servers: "alloc h (HServers m) = (a, h') \<Longrightarrow> servers_at h' (Some a) = m"
  by (auto simp: alloc_def servers_at_def cell_def)

lemma alloc_config_cell: "alloc h (HConfig c) = (a, h') \<Longrightarrow> config_cell_at h' a = c"
  by (auto simp: alloc_def config_cell_at_def cell_def)

lemma service_cell_set_env:
  "is_kind KService h a \<Longrightarrow>
   service_cell_at (update_cell h a (set_env e)) a = (service_cell_at h a)\<lparr>s_env := e\<rparr>"
  by (cases "h ! a")
     (auto simp: is_kind_def kind_of_def service_cell_at_def cell_def update_cell_def)

lemma service_cell_set_metadata:
  "is_kind KService h a \<Longrightarrow>
   service_cell_at (update_cell h a (set_metadata m)) a = (service_cell_at h a)\<lparr>s_metadata := m\<rparr>"
  by (cases "h ! a")
     (auto simp: is_kind_def kind_of_def service_cell_at_def cell_def update_cell_def)

lemma config_cell_set_metadata:
  "is_kind KConfig h a \<Longrightarrow>
   config_cell_at (update_cell h a (set_metadata m)) a = (config_cell_at h a)\<lparr>c_metadata := m\<rparr>"
  by (cases "h ! a")
     (auto simp: is_kind_def kind_of_def config_cell_at_def cell_def update_cell_def)

lemma config_cell_set_version:
  "is_kind KConfig h a \<Longrightarrow>
   config_cell_at (update_cell h a (set_version v)) a = (config_cell_at h a)\<lparr>c_version := v\<rparr>"
  by (cases "h ! a")
     (auto simp: is_kind_def kind_of_def config_cell_at_def cell_def update_cell_def)

lemma servers_set_entry:
  "is_kind KServers h a \<Longrightarrow>
   servers_at (update_cell h a (set_entry name v)) (Some a) =
     entry_set (servers_at h (Some a)) name v"
  by (cases "h ! a")
     (auto simp: is_kind_def kind_of_def servers_at_def cell_def update_cell_def)

text \<open>
  The operations on the store compute what the operations on values compute, and leave a
  well-typed store.
\<close>

lemma mergeMetadata_heap_sim:
  assumes r: "mergeMetadata_heap clk t h sm tm = (m, h', t')"
    and w: "well_typed h" and s: "ref_ok KMeta h sm" and tg: "ref_ok KMeta h tm"
  shows "mergeMetadata clk t (meta_at h sm) (meta_at h tm) = (meta_at h' m, t') \<and>
         extends h h' \<and> well_typed h' \<and> ref_ok KMeta h' m"
proof (cases "sm = None \<and> tm = None")
  case True
  with r have "m = None" "h' = h" "t' = t" by (simp_all add: mergeMetadata_heap_def)
  with True w show ?thesis
    by (simp add: mergeMetadata_def meta_at_def extends_refl ref_ok_def)
next
  case False
  let ?M = "AList.update ''lastModified'' (MNum (clk t))
              (spread (spread_opt (meta_at h tm)) (spread_opt (meta_at h sm)))"
  obtain a where al: "alloc h (HMeta ?M) = (a, h')" and m: "m = Some a" and t': "t' = Suc t"
    using r False by (auto simp: mergeMetadata_heap_def split: prod.splits)
  from False meta_at_None [OF s] meta_at_None [OF tg]
  have nn: "\<not> (meta_at h sm = None \<and> meta_at h tm = None)" by simp
  have "mergeMetadata clk t (meta_at h sm) (meta_at h tm) = (Some ?M, Suc t)"
    using nn by (simp add: mergeMetadata_def)
  moreover have "meta_at h' m = Some ?M" using alloc_meta [OF al] m by simp
  moreover have "extends h h'" by (rule extends_alloc [OF al])
  moreover have "well_typed h'"
    by (rule well_typed_alloc [OF w _ al]) (simp add: typed_obj_def)
  moreover have "ref_ok KMeta h' m"
    using is_kind_alloc [OF al] m by (simp add: ref_ok_def kind_of_def)
  ultimately show ?thesis using t' by simp
qed

lemma nth_extends_kept:
  assumes e: "extends h h'" and a: "a < length h" and k: "kind_of (h ! a) \<noteq> KServers"
  shows "h' ! a = h ! a"
  using extends_nth [OF e a] k
  by (auto simp: same_but_servers_def kind_of_def split: hobj.splits)

lemma typed_set_metadata:
  assumes t: "typed_obj h ob" and m: "ref_ok KMeta h m"
  shows "typed_obj h (set_metadata m ob)"
  using t m by (cases ob) (simp_all add: typed_obj_def typed_service_def typed_config_def)

lemma typed_set_env:
  assumes t: "typed_obj h ob" and m: "ref_ok KEnv h e"
  shows "typed_obj h (set_env e ob)"
  using t m by (cases ob) (simp_all add: typed_obj_def typed_service_def typed_config_def)

lemma typed_set_version:
  assumes t: "typed_obj h ob"
  shows "typed_obj h (set_version v ob)"
  using t by (cases ob) (simp_all add: typed_obj_def typed_service_def typed_config_def)

lemma merge_metadata_prim:
  assumes r: "merge_metadata clk t h merged sm tm True = (h', t')"
    and w: "well_typed h"
    and mk: "is_kind KService h merged \<or> is_kind KConfig h merged"
    and s: "ref_ok KMeta h sm" and tg: "ref_ok KMeta h tm"
    and b: "extends h0 h" and f: "length h0 \<le> merged"
  shows "\<exists>m. mergeMetadata clk t (meta_at h sm) (meta_at h tm) = (meta_at h' m, t') \<and>
             ref_ok KMeta h' m \<and> h' ! merged = set_metadata m (h ! merged) \<and>
             well_typed h' \<and> keeps_leaves h h' \<and> extends h0 h'"
proof -
  obtain m h1 where mm: "mergeMetadata_heap clk t h sm tm = (m, h1, t')"
    and h': "h' = update_cell h1 merged (set_metadata m)"
    using r by (auto simp: merge_metadata_def split: prod.splits)
  from mergeMetadata_heap_sim [OF mm w s tg]
  have v: "mergeMetadata clk t (meta_at h sm) (meta_at h tm) = (meta_at h1 m, t')"
    and e1: "extends h h1" and w1: "well_typed h1" and rm: "ref_ok KMeta h1 m"
    by simp_all
  from mk have ml: "merged < length h" and nk: "kind_of (h ! merged) \<noteq> KServers"
    by (auto simp: is_kind_def)
  have k1: "keeps_leaves h1 h'" unfolding h' by (rule keeps_leaves_update) simp
  have "meta_at h' m = meta_at h1 m" by (rule meta_at_keeps [OF k1 rm])
  with v have 1: "mergeMetadata clk t (meta_at h sm) (meta_at h tm) = (meta_at h' m, t')"
    by simp
  have 2: "ref_ok KMeta h' m" by (rule ref_ok_kinds [OF keeps_leaves_kinds [OF k1] rm])
  from ml extends_length [OF e1] have ml1: "merged < length h1" by simp
  have "h1 ! merged = h ! merged" by (rule nth_extends_kept [OF e1 ml nk])
  with ml1 have 3: "h' ! merged = set_metadata m (h ! merged)"
    by (simp add: h' update_cell_same)
  have 4: "well_typed h'" unfolding h'
  proof (rule well_typed_update [OF w1])
    show "kind_of (set_metadata m ob) = kind_of ob" for ob
      by (rule leaf_safe_kind) simp
    show "typed_obj h1 (set_metadata m (h1 ! merged))"
      by (rule typed_set_metadata [OF well_typed_nth [OF w1 ml1] rm])
  qed
  have 5: "keeps_leaves h h'"
    by (rule keeps_leaves_trans [OF extends_keeps_leaves [OF e1] k1])
  have 6: "extends h0 h'" unfolding h'
    by (rule extends_update_fresh [OF extends_trans [OF b e1] f])
  from 1 2 3 4 5 6 show ?thesis by blast
qed

lemma service_cell_at_nth:
  "a < length h \<Longrightarrow> h ! a = HService c \<Longrightarrow> service_cell_at h a = c"
  by (simp add: service_cell_at_def cell_def)

lemma config_cell_at_nth:
  "a < length h \<Longrightarrow> h ! a = HConfig c \<Longrightarrow> config_cell_at h a = c"
  by (simp add: config_cell_at_def cell_def)

lemma is_service_nth:
  "is_kind KService h a \<Longrightarrow> h ! a = HService (service_cell_at h a)"
  by (cases "h ! a") (auto simp: is_kind_def kind_of_def service_cell_at_def cell_def)

lemma is_config_nth:
  "is_kind KConfig h a \<Longrightarrow> h ! a = HConfig (config_cell_at h a)"
  by (cases "h ! a") (auto simp: is_kind_def kind_of_def config_cell_at_def cell_def)

lemma merge_metadata_sim:
  assumes r: "merge_metadata clk t h merged sm tm pm = (h', t')"
    and w: "well_typed h" and mk: "is_kind KService h merged"
    and s: "ref_ok KMeta h sm" and tg: "ref_ok KMeta h tm"
    and b: "extends h0 h" and f: "length h0 \<le> merged"
  shows "well_typed h' \<and> keeps_leaves h h' \<and> extends h0 h' \<and>
     (view_cell h' (service_cell_at h' merged), t') =
       (if pm
        then (case mergeMetadata clk t (meta_at h sm) (meta_at h tm) of
                (mv, tv) \<Rightarrow> ((view_cell h (service_cell_at h merged))\<lparr>metadata := mv\<rparr>, tv))
        else (view_cell h (service_cell_at h merged), t))"
proof (cases pm)
  case False
  with r have "h' = h" "t' = t" by (simp_all add: merge_metadata_def)
  with False w b show ?thesis by (simp add: keeps_leaves_refl)
next
  case True
  with r have r': "merge_metadata clk t h merged sm tm True = (h', t')" by simp
  from merge_metadata_prim [OF r' w _ s tg b f] mk
  obtain m where v: "mergeMetadata clk t (meta_at h sm) (meta_at h tm) = (meta_at h' m, t')"
    and rm: "ref_ok KMeta h' m" and n: "h' ! merged = set_metadata m (h ! merged)"
    and w': "well_typed h'" and k: "keeps_leaves h h'" and e: "extends h0 h'"
    by blast
  let ?c = "service_cell_at h merged"
  from n is_service_nth [OF mk] have "h' ! merged = HService (?c\<lparr>s_metadata := m\<rparr>)" by simp
  moreover from mk k have "merged < length h'"
    by (auto simp: is_kind_def keeps_leaves_def same_kinds_def)
  ultimately have c': "service_cell_at h' merged = ?c\<lparr>s_metadata := m\<rparr>"
    by (rule service_cell_at_nth [rotated])
  have tc: "typed_service h ?c" by (rule typed_service_cell_at [OF w])
  then have "args_at h' (s_args ?c) = args_at h (s_args ?c)"
    and "env_at h' (s_env ?c) = env_at h (s_env ?c)"
    by (simp_all add: typed_service_def args_at_keeps [OF k] env_at_keeps [OF k])
  then have "view_cell h' (service_cell_at h' merged) =
      (view_cell h ?c)\<lparr>metadata := meta_at h' m\<rparr>"
    by (simp add: c' view_cell_def)
  with v True w' k e show ?thesis by simp
qed

lemma merge_env_sim:
  assumes r: "merge_env h merged sc tc = h'"
    and w: "well_typed h" and mk: "is_kind KService h merged"
    and ts: "typed_service h sc" and tt: "typed_service h tc"
    and b: "extends h0 h" and f: "length h0 \<le> merged"
  shows "well_typed h' \<and> keeps_leaves h h' \<and> extends h0 h' \<and> is_kind KService h' merged \<and>
     view_cell h' (service_cell_at h' merged) =
       (if s_env sc \<noteq> None \<or> s_env tc \<noteq> None
        then (view_cell h (service_cell_at h merged))
               \<lparr>env := Some (spread (spread_opt (env_at h (s_env tc)))
                                 (spread_opt (env_at h (s_env sc))))\<rparr>
        else view_cell h (service_cell_at h merged))"
proof (cases "s_env sc \<noteq> None \<or> s_env tc \<noteq> None")
  case False
  with r have "h' = h" by (simp add: merge_env_def)
  with False w b mk show ?thesis by (simp add: keeps_leaves_refl)
next
  case True
  let ?E = "spread (spread_opt (env_at h (s_env tc))) (spread_opt (env_at h (s_env sc)))"
  obtain e h1 where al: "alloc h (HEnv ?E) = (e, h1)"
    and h': "h' = update_cell h1 merged (set_env (Some e))"
    using r True by (auto simp: merge_env_def split: prod.splits)
  have e1: "extends h h1" by (rule extends_alloc [OF al])
  have w1: "well_typed h1" by (rule well_typed_alloc [OF w _ al]) (simp add: typed_obj_def)
  have ke: "ref_ok KEnv h1 (Some e)"
    using is_kind_alloc [OF al] by (simp add: ref_ok_def kind_of_def)
  have mk1: "is_kind KService h1 merged" by (rule is_kind_extends [OF e1 mk])
  then have ml1: "merged < length h1" by (simp add: is_kind_def)
  have k1: "keeps_leaves h1 h'" unfolding h' by (rule keeps_leaves_update) simp
  have 1: "well_typed h'" unfolding h'
  proof (rule well_typed_update [OF w1])
    show "kind_of (set_env (Some e) ob) = kind_of ob" for ob
      by (rule leaf_safe_kind) simp
    show "typed_obj h1 (set_env (Some e) (h1 ! merged))"
      by (rule typed_set_env [OF well_typed_nth [OF w1 ml1] ke])
  qed
  have 2: "keeps_leaves h h'"
    by (rule keeps_leaves_trans [OF extends_keeps_leaves [OF e1] k1])
  have 3: "extends h0 h'" unfolding h'
    by (rule extends_update_fresh [OF extends_trans [OF b e1] f])
  have 4: "is_kind KService h' merged"
    by (rule is_kind_kinds [OF keeps_leaves_kinds [OF k1] mk1])
  let ?c = "service_cell_at h merged"
  have "service_cell_at h' merged = (service_cell_at h1 merged)\<lparr>s_env := Some e\<rparr>"
    unfolding h' by (rule service_cell_set_env [OF mk1])
  also have "service_cell_at h1 merged = ?c" by (rule service_cell_at_extends [OF e1 mk])
  finally have c': "service_cell_at h' merged = ?c\<lparr>s_env := Some e\<rparr>" .
  have tc: "typed_service h ?c" by (rule typed_service_cell_at [OF w])
  then have "args_at h' (s_args ?c) = args_at h (s_args ?c)"
    and "meta_at h' (s_metadata ?c) = meta_at h (s_metadata ?c)"
    by (simp_all add: typed_service_def args_at_keeps [OF 2] meta_at_keeps [OF 2])
  moreover have "env_at h' (Some e) = Some ?E"
    using env_at_keeps [OF k1 ke] alloc_env [OF al] by simp
  ultimately have "view_cell h' (service_cell_at h' merged) = (view_cell h ?c)\<lparr>env := Some ?E\<rparr>"
    by (simp add: c' view_cell_def)
  with True 1 2 3 4 show ?thesis by simp
qed

lemma view_spread_cells:
  assumes ts: "typed_service h sc"
  shows "view_cell h (spread_cells tc sc) =
     \<lparr>command = override (s_command sc) (s_command tc),
      args = override (args_at h (s_args sc)) (args_at h (s_args tc)),
      env = override (env_at h (s_env sc)) (env_at h (s_env tc)),
      disabled = override (s_disabled sc) (s_disabled tc),
      cwd = override (s_cwd sc) (s_cwd tc),
      timeout = override (s_timeout sc) (s_timeout tc),
      metadata = override (meta_at h (s_metadata sc)) (meta_at h (s_metadata tc))\<rparr>"
  using ts
  by (simp add: view_cell_def spread_cells_def typed_service_def args_at_override
        env_at_override meta_at_override)

lemma typed_spread_cells:
  "typed_service h sc \<Longrightarrow> typed_service h tc \<Longrightarrow> typed_service h (spread_cells tc sc)"
  by (simp add: typed_service_def spread_cells_def ref_ok_override)

lemma mergeServiceConfigs_heap_sim:
  assumes r: "mergeServiceConfigs_heap clk t h sa tr pm = (merged, h', t')"
    and w: "well_typed h"
  shows "mergeServiceConfigs clk t (service_at h sa) (view_cell h (target_cell h tr)) pm =
           (service_at h' merged, t') \<and>
         extends h h' \<and> well_typed h' \<and> is_kind KService h' merged"
proof -
  let ?sc = "service_cell_at h sa"
  let ?tc = "target_cell h tr"
  let ?sp = "spread_cells ?tc ?sc"
  obtain h1 h2 where al: "alloc h (HService ?sp) = (merged, h1)"
    and h2: "merge_env h1 merged ?sc ?tc = h2"
    and mm: "merge_metadata clk t h2 merged (s_metadata ?sc) (s_metadata ?tc) pm = (h', t')"
    using r by (auto simp: mergeServiceConfigs_heap_def Let_def split: prod.splits)
  have ts: "typed_service h ?sc" by (rule typed_service_cell_at [OF w])
  have tt: "typed_service h ?tc" by (rule typed_target_cell [OF w])
  have e1: "extends h h1" by (rule extends_alloc [OF al])
  have w1: "well_typed h1"
    by (rule well_typed_alloc [OF w _ al]) (simp add: typed_obj_def typed_spread_cells ts tt)
  have mk1: "is_kind KService h1 merged"
    using is_kind_alloc [OF al] by (simp add: kind_of_def)
  have f: "length h \<le> merged" using al by (simp add: alloc_def)
  have k1: "same_kinds h h1" by (rule extends_same_kinds [OF e1])
  have ts1: "typed_service h1 ?sc" by (rule typed_service_kinds [OF k1 ts])
  have tt1: "typed_service h1 ?tc" by (rule typed_service_kinds [OF k1 tt])
  from merge_env_sim [OF h2 w1 mk1 ts1 tt1 e1 f]
  have w2: "well_typed h2" and kl2: "keeps_leaves h1 h2" and e2: "extends h h2"
    and mk2: "is_kind KService h2 merged"
    and v2: "view_cell h2 (service_cell_at h2 merged) =
       (if s_env ?sc \<noteq> None \<or> s_env ?tc \<noteq> None
        then (view_cell h1 (service_cell_at h1 merged))
               \<lparr>env := Some (spread (spread_opt (env_at h1 (s_env ?tc)))
                                 (spread_opt (env_at h1 (s_env ?sc))))\<rparr>
        else view_cell h1 (service_cell_at h1 merged))"
    by simp_all
  have k2: "same_kinds h h2" by (rule extends_same_kinds [OF e2])
  have sm2: "ref_ok KMeta h2 (s_metadata ?sc)" and tm2: "ref_ok KMeta h2 (s_metadata ?tc)"
    using typed_service_kinds [OF k2 ts] typed_service_kinds [OF k2 tt]
    by (simp_all add: typed_service_def)
  from merge_metadata_sim [OF mm w2 mk2 sm2 tm2 e2 f]
  have w3: "well_typed h'" and kl3: "keeps_leaves h2 h'" and e3: "extends h h'"
    and v3: "(view_cell h' (service_cell_at h' merged), t') =
       (if pm
        then (case mergeMetadata clk t (meta_at h2 (s_metadata ?sc)) (meta_at h2 (s_metadata ?tc)) of
                (mv, tv) \<Rightarrow> ((view_cell h2 (service_cell_at h2 merged))\<lparr>metadata := mv\<rparr>, tv))
        else (view_cell h2 (service_cell_at h2 merged), t))"
    by simp_all
  have mk3: "is_kind KService h' merged"
    by (rule is_kind_kinds [OF keeps_leaves_kinds [OF kl3] mk2])
  have c1: "service_cell_at h1 merged = ?sp" by (rule alloc_service_cell [OF al])
  have "view_cell h1 ?sp = view_cell h ?sp"
    by (rule view_cell_extends [OF e1 typed_spread_cells [OF ts tt]])
  also have "\<dots> =
     \<lparr>command = override (s_command ?sc) (s_command ?tc),
      args = override (args_at h (s_args ?sc)) (args_at h (s_args ?tc)),
      env = override (env_at h (s_env ?sc)) (env_at h (s_env ?tc)),
      disabled = override (s_disabled ?sc) (s_disabled ?tc),
      cwd = override (s_cwd ?sc) (s_cwd ?tc),
      timeout = override (s_timeout ?sc) (s_timeout ?tc),
      metadata = override (meta_at h (s_metadata ?sc)) (meta_at h (s_metadata ?tc))\<rparr>"
    by (rule view_spread_cells [OF ts])
  finally have v1: "view_cell h1 (service_cell_at h1 merged) =
     \<lparr>command = override (s_command ?sc) (s_command ?tc),
      args = override (args_at h (s_args ?sc)) (args_at h (s_args ?tc)),
      env = override (env_at h (s_env ?sc)) (env_at h (s_env ?tc)),
      disabled = override (s_disabled ?sc) (s_disabled ?tc),
      cwd = override (s_cwd ?sc) (s_cwd ?tc),
      timeout = override (s_timeout ?sc) (s_timeout ?tc),
      metadata = override (meta_at h (s_metadata ?sc)) (meta_at h (s_metadata ?tc))\<rparr>"
    by (simp add: c1)
  have en: "env_at h1 (s_env ?sc) = env_at h (s_env ?sc)"
      "env_at h1 (s_env ?tc) = env_at h (s_env ?tc)"
    using ts tt by (simp_all add: typed_service_def env_at_extends [OF e1])
  have mn: "meta_at h2 (s_metadata ?sc) = meta_at h (s_metadata ?sc)"
      "meta_at h2 (s_metadata ?tc) = meta_at h (s_metadata ?tc)"
    using ts tt by (simp_all add: typed_service_def meta_at_extends [OF e2])
  have cond: "(s_env ?sc \<noteq> None \<or> s_env ?tc \<noteq> None) =
      (env_at h (s_env ?sc) \<noteq> None \<or> env_at h (s_env ?tc) \<noteq> None)"
    using ts tt by (simp add: typed_service_def env_at_None)
  have sv: "service_at h sa = view_cell h ?sc" by (simp add: service_at_def)
  have "mergeServiceConfigs clk t (view_cell h ?sc) (view_cell h ?tc) pm =
      (view_cell h' (service_cell_at h' merged), t')"
    unfolding v3 v2 v1 en mn cond
    by (simp add: mergeServiceConfigs_def Let_def view_cell_def split: prod.splits)
  with e3 w3 mk3 show ?thesis by (simp add: service_at_def)
qed

lemma unchanged_extends:
  assumes u: "unchanged h h'"
  shows "extends h h'"
proof (rule extendsI)
  show "length h \<le> length h'" by (rule unchanged_length [OF u])
next
  fix a assume a: "a < length h"
  from u have "take (length h) h' ! a = h ! a" by (simp add: unchanged_def)
  with a have "h' ! a = h ! a" by simp
  then show "same_but_servers (h ! a) (h' ! a)" by simp
qed

lemma servers_at_unchanged:
  assumes u: "unchanged h h'" and a: "is_kind KServers h a"
  shows "servers_at h' (Some a) = servers_at h (Some a)"
  using cell_unchanged [OF u, of a] a by (simp add: servers_at_def is_kind_def)

lemma conflict_view_extends:
  assumes e: "extends h h'" and w: "well_typed h" and c: "conflict_ok h c"
  shows "conflict_view h' c = conflict_view h c"
proof -
  from c have s: "is_kind KService h (hc_sourceConfig c)"
    and t: "case hc_targetConfig c of Own a \<Rightarrow> is_kind KService h a | Inherited \<Rightarrow> True"
    and v: "hc_values c = (hc_sourceConfig c, hc_targetConfig c)"
    by (simp_all add: conflict_ok_def)
  from service_at_extends [OF e w s] target_view_extends [OF e w t] v
  show ?thesis by (simp add: conflict_view_def)
qed

lemma conflict_ok_extends: "extends h h' \<Longrightarrow> conflict_ok h c \<Longrightarrow> conflict_ok h' c"
  by (auto simp: conflict_ok_def is_kind_extends split: target_ref.splits)

lemma conflicts_view_extends:
  assumes e: "extends h h'" and w: "well_typed h" and c: "list_all (conflict_ok h) cs"
  shows "map (conflict_view h') cs = map (conflict_view h) cs"
  using c by (auto simp: list_all_iff conflict_view_extends [OF e w])

lemma conflicts_ok_extends:
  "extends h h' \<Longrightarrow> list_all (conflict_ok h) cs \<Longrightarrow> list_all (conflict_ok h') cs"
  by (auto simp: list_all_iff conflict_ok_extends)

lemma result_view_extends:
  assumes e: "extends h h'" and w: "well_typed h" and c: "list_all (conflict_ok h) (hr_conflicts r)"
    and n: "hr_config r = None"
  shows "result_view h' r = result_view h r"
  by (simp add: result_view_def n conflicts_view_extends [OF e w c])

lemma detectServiceConflict_heap_sim:
  assumes "detectServiceConflict_heap clk t h name sa tr = (co, t1)"
  shows "detectServiceConflict clk t name (service_at h sa) (view_cell h (target_cell h tr)) =
         (map_option (conflict_view h) co, t1)"
  using assms
  by (auto simp: detectServiceConflict_heap_def detectServiceConflict_def Let_def
        conflict_view_def split: if_splits)

lemma detectServiceConflict_heap_conflict:
  assumes "detectServiceConflict_heap clk t h name sa tr = (Some c, t1)"
  shows "hc_sourceConfig c = sa \<and> hc_targetConfig c = tr \<and> hc_values c = (sa, tr)"
  using assms
  by (auto simp: detectServiceConflict_heap_def Let_def split: if_splits)

lemma copy_service_sim:
  assumes r: "copy_service h sa = (a, h')" and w: "well_typed h"
  shows "service_at h' a = service_at h sa \<and> well_typed h' \<and> is_kind KService h' a"
proof -
  from r have al: "alloc h (HService (service_cell_at h sa)) = (a, h')"
    by (simp add: copy_service_def)
  have ts: "typed_service h (service_cell_at h sa)" by (rule typed_service_cell_at [OF w])
  have "service_at h' a = view_cell h' (service_cell_at h sa)"
    by (simp add: service_at_def alloc_service_cell [OF al])
  also have "\<dots> = view_cell h (service_cell_at h sa)"
    by (rule view_cell_extends [OF extends_alloc [OF al] ts])
  finally have "service_at h' a = service_at h sa" by (simp add: service_at_def)
  moreover have "well_typed h'"
    by (rule well_typed_alloc [OF w _ al]) (simp add: typed_obj_def ts)
  moreover have "is_kind KService h' a" using is_kind_alloc [OF al] by (simp add: kind_of_def)
  ultimately show ?thesis by simp
qed

lemma mergeService_heap_sim:
  assumes r: "mergeService_heap clk t h name sa tro options = (res, h', t')"
    and w: "well_typed h"
  shows "mergeService clk t name (service_at h sa)
           (map_option (\<lambda>tr. view_cell h (target_cell h tr)) tro) options =
           (service_result_view h' res, t') \<and>
         well_typed h' \<and> ref_ok KService h' (hs_config res) \<and>
         (case hs_conflict res of
            None \<Rightarrow> True
          | Some c \<Rightarrow> h' = h \<and> hc_sourceConfig c = sa \<and> tro = Some (hc_targetConfig c) \<and>
                      hc_values c = (sa, hc_targetConfig c))"
proof (cases tro)
  case None
  with r obtain a where cs: "copy_service h sa = (a, h')"
    and res: "res = \<lparr>hs_action = Add, hs_config = Some a, hs_conflict = None, hs_warnings = None\<rparr>"
    and t': "t' = t"
    by (auto simp: mergeService_heap_def split: prod.splits)
  from copy_service_sim [OF cs w] None res t' show ?thesis
    by (simp add: mergeService_def service_result_view_def ref_ok_def)
next
  case (Some tr)
  obtain co t1 where det: "detectServiceConflict_heap clk t h name sa tr = (co, t1)"
    by (cases "detectServiceConflict_heap clk t h name sa tr")
  note dv = detectServiceConflict_heap_sim [OF det]
  show ?thesis
  proof (cases co)
    case None
    with r Some det obtain m where ms: "mergeServiceConfigs_heap clk t1 h sa tr
        (preserveMetadata options) = (m, h', t')"
      and res: "res = \<lparr>hs_action = Update, hs_config = Some m, hs_conflict = None,
                       hs_warnings = None\<rparr>"
      by (auto simp: mergeService_heap_def split: prod.splits)
    from mergeServiceConfigs_heap_sim [OF ms w] dv None Some res show ?thesis
      by (simp add: mergeService_def service_result_view_def ref_ok_def)
  next
    case (Some c)
    note c = Some
    note cf = detectServiceConflict_heap_conflict [OF det [unfolded c]]
    show ?thesis
    proof (cases "strategy options")
      case OVERWRITE
      with r \<open>tro = Some tr\<close> det c obtain a where cs: "copy_service h sa = (a, h')"
        and res: "res = \<lparr>hs_action = Update, hs_config = Some a, hs_conflict = None,
                         hs_warnings = Some [Overwritten name]\<rparr>"
        and t': "t' = t1"
        by (auto simp: mergeService_heap_def split: prod.splits)
      from copy_service_sim [OF cs w] dv c \<open>tro = Some tr\<close> res t' OVERWRITE show ?thesis
        by (simp add: mergeService_def service_result_view_def ref_ok_def)
    next
      case SKIP
      with r \<open>tro = Some tr\<close> det c have "h' = h" "t' = t1"
        "res = \<lparr>hs_action = Skip, hs_config = None, hs_conflict = None,
                hs_warnings = Some [SkippedConflict name]\<rparr>"
        by (auto simp: mergeService_heap_def split: prod.splits)
      with dv c \<open>tro = Some tr\<close> SKIP w show ?thesis
        by (simp add: mergeService_def service_result_view_def ref_ok_def)
    next
      case MERGE
      with r \<open>tro = Some tr\<close> det c obtain m where ms: "mergeServiceConfigs_heap clk t1 h sa tr
          (preserveMetadata options) = (m, h', t')"
        and res: "res = \<lparr>hs_action = Update, hs_config = Some m, hs_conflict = None,
                         hs_warnings = Some [ForcedMerge name]\<rparr>"
        by (auto simp: mergeService_heap_def split: prod.splits)
      from mergeServiceConfigs_heap_sim [OF ms w] dv c \<open>tro = Some tr\<close> res MERGE show ?thesis
        by (simp add: mergeService_def service_result_view_def ref_ok_def)
    next
      case PROMPT
      with r \<open>tro = Some tr\<close> det c have "h' = h" "t' = t1"
        "res = \<lparr>hs_action = Skip, hs_config = None, hs_conflict = Some c,
                hs_warnings = None\<rparr>"
        by (auto simp: mergeService_heap_def split: prod.splits)
      with dv c \<open>tro = Some tr\<close> PROMPT w cf show ?thesis
        by (simp add: mergeService_def service_result_view_def ref_ok_def)
    qed
  qed
qed

lemma map_of_services_view:
  "map_of (services_view h m) name = map_option (service_at h) (map_of m name)"
  by (induction m) (auto simp: services_view_def)

lemma view_empty_cell: "view_cell h empty_service_cell = no_fields"
  by (simp add: view_cell_def empty_service_cell_def no_fields_def args_at_def env_at_def
        meta_at_def)

lemma prop_get_view:
  "prop_get (services_view h m) name =
     map_option (\<lambda>tr. view_cell h (target_cell h tr)) (prop_lookup m name)"
  by (cases "map_of m name")
     (simp_all add: prop_get_def prop_lookup_def map_of_services_view target_cell_def
        view_empty_cell service_at_def)

lemma services_view_update:
  "services_view h (AList.update name a m) = AList.update name (service_at h a) (services_view h m)"
  by (induction m) (auto simp: services_view_def)

lemma services_view_entry_set:
  "services_view h (entry_set m name a) = prop_set (services_view h m) name (service_at h a)"
proof (cases "map_of m name = None \<and> name = ''__proto__''")
  case True
  then have n: "map_of m name = None" and p: "name = ''__proto__''" by blast+
  have "entry_set m name a = m" using n p by (simp add: entry_set_def)
  moreover have "prop_set (services_view h m) name (service_at h a) = services_view h m"
    using n p by (simp add: prop_set_def map_of_services_view)
  ultimately show ?thesis by simp
next
  case False
  then have "\<not> (map_of (services_view h m) name = None \<and> name = ''__proto__'')"
    by (simp add: map_of_services_view)
  with False show ?thesis
    by (simp only: entry_set_def prop_set_def services_view_update if_False)
qed

lemma typed_servers_entry_set:
  "typed_servers h m \<Longrightarrow> is_kind KService h a \<Longrightarrow> typed_servers h (entry_set m name a)"
proof -
  assume t: "typed_servers h m" and a: "is_kind KService h a"
  have "set (AList.update name a m) \<subseteq> set m \<union> {(name, a)}"
    by (induction m) auto
  with t a show ?thesis
    by (auto simp: typed_servers_def entry_set_def list_all_iff)
qed

lemma is_servers_nth:
  "is_kind KServers h a \<Longrightarrow> h ! a = HServers (servers_at h (Some a))"
  by (cases "h ! a") (auto simp: is_kind_def kind_of_def servers_at_def cell_def)

lemma set_entry_sim:
  assumes w: "well_typed h" and mk: "is_kind KServers h ms" and c: "is_kind KService h c"
    and h'_def: "h' = update_cell h ms (set_entry name c)"
  shows "services_view h' (servers_at h' (Some ms)) =
           prop_set (services_view h (servers_at h (Some ms))) name (service_at h c) \<and>
         extends h h' \<and> well_typed h' \<and> is_kind KServers h' ms"
proof -
  let ?m = "servers_at h (Some ms)"
  have e: "extends h h'" unfolding h'_def by (rule extends_set_entry)
  have tm: "typed_servers h ?m" by (rule typed_servers_at [OF w])
  have te: "typed_servers h (entry_set ?m name c)" by (rule typed_servers_entry_set [OF tm c])
  have "servers_at h' (Some ms) = entry_set ?m name c"
    unfolding h'_def by (rule servers_set_entry [OF mk])
  then have "services_view h' (servers_at h' (Some ms)) = services_view h' (entry_set ?m name c)"
    by simp
  also have "\<dots> = services_view h (entry_set ?m name c)"
    by (rule services_view_extends [OF e w te])
  also have "\<dots> = prop_set (services_view h ?m) name (service_at h c)"
    by (rule services_view_entry_set)
  finally have 1: "services_view h' (servers_at h' (Some ms)) =
      prop_set (services_view h ?m) name (service_at h c)" .
  have 3: "well_typed h'" unfolding h'_def
  proof (rule well_typed_update [OF w])
    show "kind_of (set_entry name c ob) = kind_of ob" for ob
      by (rule leaf_safe_kind) simp
    show "typed_obj h (set_entry name c (h ! ms))"
      using is_servers_nth [OF mk] te by (simp add: typed_obj_def)
  qed
  have 4: "is_kind KServers h' ms" by (rule is_kind_extends [OF e mk])
  from 1 e 3 4 show ?thesis by simp
qed

lemma record_service_result_heap_sim:
  assumes r: "record_service_result_heap ms name res (h, hres) = (h', hres')"
    and w: "well_typed h" and mk: "is_kind KServers h ms"
    and rc: "ref_ok KService h (hs_config res)"
    and cok: "list_all (conflict_ok h) (hr_conflicts hres)"
    and nc: "hr_config hres = None"
    and cn: "case hs_conflict res of None \<Rightarrow> True | Some c \<Rightarrow> conflict_ok h c"
  shows "record_service_result name (service_result_view h res)
           (services_view h (servers_at h (Some ms)), result_view h hres) =
           (services_view h' (servers_at h' (Some ms)), result_view h' hres') \<and>
         extends h h' \<and> well_typed h' \<and> is_kind KServers h' ms \<and>
         list_all (conflict_ok h') (hr_conflicts hres') \<and> hr_config hres' = None"
proof (cases "hs_conflict res = None \<and> hs_action res \<noteq> Skip \<and> hs_config res \<noteq> None")
  case False
  with r have h': "h' = h"
    by (auto simp: record_service_result_heap_def Let_def
             split: option.splits merge_action.splits)
  from r False cok nc cn
  have "list_all (conflict_ok h) (hr_conflicts hres') \<and> hr_config hres' = None"
    by (auto simp: record_service_result_heap_def Let_def
             split: option.splits merge_action.splits)
  moreover from r False
  have "record_service_result name (service_result_view h res)
           (services_view h (servers_at h (Some ms)), result_view h hres) =
           (services_view h (servers_at h (Some ms)), result_view h hres')"
    by (auto simp: record_service_result_heap_def record_service_result_def Let_def
          service_result_view_def result_view_def nc
          split: option.splits merge_action.splits)
  ultimately show ?thesis using h' w mk by (simp add: extends_refl)
next
  case True
  then obtain c where c: "hs_config res = Some c" and nn: "hs_conflict res = None"
    and ns: "hs_action res \<noteq> Skip" by auto
  from rc c have ck: "is_kind KService h c" by (simp add: ref_ok_def)
  from r c nn ns have h': "h' = update_cell h ms (set_entry name c)"
    by (auto simp: record_service_result_heap_def Let_def
             split: option.splits merge_action.splits)
  from set_entry_sim [OF w mk ck h']
  have sv: "services_view h' (servers_at h' (Some ms)) =
           prop_set (services_view h (servers_at h (Some ms))) name (service_at h c)"
    and e: "extends h h'" and w': "well_typed h'" and mk': "is_kind KServers h' ms"
    by simp_all
  from r c nn ns have cs: "hr_conflicts hres' = hr_conflicts hres" and nc': "hr_config hres' = None"
    using nc
    by (auto simp: record_service_result_heap_def Let_def
             split: option.splits merge_action.splits)
  have cok': "list_all (conflict_ok h') (hr_conflicts hres')"
    unfolding cs by (rule conflicts_ok_extends [OF e cok])
  have rv: "result_view h' hres' = result_view h hres'"
    by (rule result_view_extends [OF e w _ nc']) (simp add: cs cok)
  from r c nn ns
  have "record_service_result name (service_result_view h res)
           (services_view h (servers_at h (Some ms)), result_view h hres) =
           (prop_set (services_view h (servers_at h (Some ms))) name (service_at h c),
            result_view h hres')"
    by (auto simp: record_service_result_heap_def record_service_result_def Let_def
          service_result_view_def result_view_def nc
          split: option.splits merge_action.splits)
  with sv rv e w' mk' cok' nc' show ?thesis by simp
qed

lemma mergeConfigs_step_heap_sim:
  assumes r: "mergeConfigs_step_heap clk options ms (name, sa) (h, hres, t) = (h', hres', t')"
    and w: "well_typed h" and mk: "is_kind KServers h ms" and sk: "is_kind KService h sa"
    and cok: "list_all (conflict_ok h) (hr_conflicts hres)"
    and nc: "hr_config hres = None"
  shows "mergeConfigs_step clk options (name, service_at h sa)
           (services_view h (servers_at h (Some ms)), result_view h hres, t) =
           (services_view h' (servers_at h' (Some ms)), result_view h' hres', t') \<and>
         extends h h' \<and> well_typed h' \<and> is_kind KServers h' ms \<and>
         list_all (conflict_ok h') (hr_conflicts hres') \<and> hr_config hres' = None"
proof -
  let ?m = "servers_at h (Some ms)"
  obtain res h1 where m: "mergeService_heap clk t h name sa (prop_lookup ?m name) options =
      (res, h1, t')"
    and rec: "record_service_result_heap ms name res (h1, hres) = (h', hres')"
    using r by (auto simp: mergeConfigs_step_heap_def split: prod.splits)
  have u: "unchanged h h1" by (rule mergeService_heap_frame [OF m])
  have e1: "extends h h1" by (rule unchanged_extends [OF u])
  from mergeService_heap_sim [OF m w]
  have v: "mergeService clk t name (service_at h sa)
           (map_option (\<lambda>tr. view_cell h (target_cell h tr)) (prop_lookup ?m name)) options =
           (service_result_view h1 res, t')"
    and w1: "well_typed h1" and rc: "ref_ok KService h1 (hs_config res)"
    and cf: "case hs_conflict res of
            None \<Rightarrow> True
          | Some c \<Rightarrow> h1 = h \<and> hc_sourceConfig c = sa \<and>
                      prop_lookup ?m name = Some (hc_targetConfig c) \<and>
                      hc_values c = (sa, hc_targetConfig c)"
    by simp_all
  have mk1: "is_kind KServers h1 ms" by (rule is_kind_extends [OF e1 mk])
  have m1: "servers_at h1 (Some ms) = ?m" by (rule servers_at_unchanged [OF u mk])
  have tm: "typed_servers h ?m" by (rule typed_servers_at [OF w])
  have sv1: "services_view h1 ?m = services_view h ?m"
    by (rule services_view_extends [OF e1 w tm])
  have cok1: "list_all (conflict_ok h1) (hr_conflicts hres)"
    by (rule conflicts_ok_extends [OF e1 cok])
  have rv1: "result_view h1 hres = result_view h hres"
    by (rule result_view_extends [OF e1 w cok nc])
  have cn: "case hs_conflict res of None \<Rightarrow> True | Some c \<Rightarrow> conflict_ok h1 c"
  proof (cases "hs_conflict res")
    case None
    then show ?thesis by simp
  next
    case (Some c)
    with cf have h1: "h1 = h" and s: "hc_sourceConfig c = sa"
      and l: "prop_lookup ?m name = Some (hc_targetConfig c)"
      and vs: "hc_values c = (sa, hc_targetConfig c)" by simp_all
    have "case hc_targetConfig c of Own a \<Rightarrow> is_kind KService h a | Inherited \<Rightarrow> True"
    proof (cases "hc_targetConfig c")
      case (Own a)
      with l have "map_of ?m name = Some a"
        by (auto simp: prop_lookup_def split: option.splits if_splits)
      then have "(name, a) \<in> set ?m" by (rule map_of_SomeD)
      with tm have "is_kind KService h a" by (auto simp: typed_servers_def list_all_iff)
      with Own show ?thesis by simp
    qed simp
    with Some h1 s vs sk show ?thesis by (simp add: conflict_ok_def)
  qed
  from record_service_result_heap_sim [OF rec w1 mk1 rc cok1 nc cn]
  have rs: "record_service_result name (service_result_view h1 res)
           (services_view h1 (servers_at h1 (Some ms)), result_view h1 hres) =
           (services_view h' (servers_at h' (Some ms)), result_view h' hres')"
    and e2: "extends h1 h'" and w': "well_typed h'" and mk': "is_kind KServers h' ms"
    and cok': "list_all (conflict_ok h') (hr_conflicts hres')" and nc': "hr_config hres' = None"
    by simp_all
  have "mergeConfigs_step clk options (name, service_at h sa)
           (services_view h ?m, result_view h hres, t) =
        (services_view h' (servers_at h' (Some ms)), result_view h' hres', t')"
    using v rs by (simp add: mergeConfigs_step_def prop_get_view m1 sv1 rv1)
  with extends_trans [OF e1 e2] w' mk' cok' nc' show ?thesis by simp
qed

lemma fold_step_heap_sim:
  assumes "fold (mergeConfigs_step_heap clk options ms) entries (h, hres, t) = (h', hres', t')"
    and "well_typed h" and "is_kind KServers h ms" and "typed_servers h entries"
    and "list_all (conflict_ok h) (hr_conflicts hres)"
    and "hr_config hres = None"
  shows "fold (mergeConfigs_step clk options) (services_view h entries)
           (services_view h (servers_at h (Some ms)), result_view h hres, t) =
           (services_view h' (servers_at h' (Some ms)), result_view h' hres', t') \<and>
         extends h h' \<and> well_typed h' \<and> is_kind KServers h' ms \<and> hr_config hres' = None"
  using assms
proof (induction entries arbitrary: h hres t)
  case Nil
  then show ?case by (simp add: services_view_def extends_refl)
next
  case (Cons entry es)
  obtain name sa where en: "entry = (name, sa)" by (cases entry)
  obtain h1 r1 t1 where step: "mergeConfigs_step_heap clk options ms (name, sa) (h, hres, t) =
      (h1, r1, t1)" by (metis prod_cases3)
  with Cons.prems(1) en
  have f: "fold (mergeConfigs_step_heap clk options ms) es (h1, r1, t1) = (h', hres', t')"
    by simp
  from Cons.prems(4) en have sk: "is_kind KService h sa" and tes: "typed_servers h es"
    by (simp_all add: typed_servers_def)
  from mergeConfigs_step_heap_sim [OF step Cons.prems(2,3) sk Cons.prems(5,6)]
  have sv: "mergeConfigs_step clk options (name, service_at h sa)
           (services_view h (servers_at h (Some ms)), result_view h hres, t) =
           (services_view h1 (servers_at h1 (Some ms)), result_view h1 r1, t1)"
    and e1: "extends h h1" and w1: "well_typed h1" and mk1: "is_kind KServers h1 ms"
    and cok1: "list_all (conflict_ok h1) (hr_conflicts r1)" and nc1: "hr_config r1 = None"
    by simp_all
  have tes1: "typed_servers h1 es"
    by (rule typed_servers_kinds [OF extends_same_kinds [OF e1] tes])
  from Cons.IH [OF f w1 mk1 tes1 cok1 nc1]
  have iv: "fold (mergeConfigs_step clk options) (services_view h1 es)
           (services_view h1 (servers_at h1 (Some ms)), result_view h1 r1, t1) =
           (services_view h' (servers_at h' (Some ms)), result_view h' hres', t')"
    and e2: "extends h1 h'" and w': "well_typed h'" and mk': "is_kind KServers h' ms"
    and nc': "hr_config hres' = None"
    by simp_all
  have es: "services_view h1 es = services_view h es"
    by (rule services_view_extends [OF e1 Cons.prems(2) tes])
  have hd: "services_view h (entry # es) = (name, service_at h sa) # services_view h es"
    by (simp add: services_view_def en)
  have "fold (mergeConfigs_step clk options) (services_view h (entry # es))
           (services_view h (servers_at h (Some ms)), result_view h hres, t) =
           (services_view h' (servers_at h' (Some ms)), result_view h' hres', t')"
    unfolding hd using iv sv by (simp add: es)
  with extends_trans [OF e1 e2] w' mk' nc' show ?case by simp
qed

lemma copy_target_sim:
  assumes r: "copy_target h sc tc = (ms, mc, h3)" and w: "well_typed h"
    and tt: "typed_config h tc"
  shows "well_typed h3 \<and> unchanged h h3 \<and> is_kind KServers h3 ms \<and> is_kind KConfig h3 mc \<and>
     length h \<le> mc \<and>
     config_cell_at h3 mc =
       tc\<lparr>c_mcpServers := Some ms, c_version := merged_version (c_version sc) (c_version tc)\<rparr> \<and>
     (\<exists>h1. unchanged h1 h3 \<and> length h1 \<le> mc \<and> is_kind KServers h1 ms \<and>
           servers_at h1 (Some ms) = servers_at h (c_mcpServers tc))"
proof -
  let ?m0 = "servers_at h (c_mcpServers tc)"
  let ?tc = "tc\<lparr>c_mcpServers := Some ms\<rparr>"
  let ?mv = "merged_version (c_version sc) (c_version tc)"
  obtain h1 h2 where a1: "alloc h (HServers ?m0) = (ms, h1)"
    and a2: "alloc h1 (HConfig ?tc) = (mc, h2)"
    and h3: "h3 = update_cell h2 mc (set_version ?mv)"
    using r by (auto simp: copy_target_def split: prod.splits)
  have w1: "well_typed h1"
    by (rule well_typed_alloc [OF w _ a1]) (simp add: typed_obj_def typed_servers_at [OF w])
  have mk1: "is_kind KServers h1 ms" using is_kind_alloc [OF a1] by (simp add: kind_of_def)
  have k1: "same_kinds h h1" by (rule extends_same_kinds [OF extends_alloc [OF a1]])
  have "typed_config h1 tc" by (rule typed_config_kinds [OF k1 tt])
  with mk1 have t1: "typed_obj h1 (HConfig ?tc)"
    by (simp add: typed_obj_def typed_config_def ref_ok_def)
  have w2: "well_typed h2" by (rule well_typed_alloc [OF w1 t1 a2])
  have ck2: "is_kind KConfig h2 mc" using is_kind_alloc [OF a2] by (simp add: kind_of_def)
  then have ml2: "mc < length h2" by (simp add: is_kind_def)
  have 1: "well_typed h3" unfolding h3
  proof (rule well_typed_update [OF w2])
    show "kind_of (set_version ?mv ob) = kind_of ob" for ob
      by (rule leaf_safe_kind) simp
    show "typed_obj h2 (set_version ?mv (h2 ! mc))"
      by (rule typed_set_version [OF well_typed_nth [OF w2 ml2]])
  qed
  have k3: "same_kinds h2 h3" unfolding h3
    by (rule same_kinds_update) (simp add: leaf_safe_kind)
  have mc: "mc = length h1" and ms: "ms = length h" and l1: "length h1 = Suc (length h)"
    using a1 a2 by (auto simp: alloc_def)
  have u13: "unchanged h1 h3" unfolding h3
    by (rule unchanged_update [OF unchanged_alloc [OF unchanged_refl a2]]) (simp add: mc)
  have u03: "unchanged h h3"
    by (rule unchanged_trans [OF unchanged_alloc [OF unchanged_refl a1] u13])
  have 3: "is_kind KServers h3 ms"
    by (rule is_kind_extends [OF unchanged_extends [OF u13] mk1])
  have 4: "is_kind KConfig h3 mc" by (rule is_kind_kinds [OF k3 ck2])
  have 5: "length h \<le> mc" by (simp add: mc l1)
  have "config_cell_at h3 mc = (config_cell_at h2 mc)\<lparr>c_version := ?mv\<rparr>"
    unfolding h3 by (rule config_cell_set_version [OF ck2])
  then have 6: "config_cell_at h3 mc = tc\<lparr>c_mcpServers := Some ms, c_version := ?mv\<rparr>"
    by (simp add: alloc_config_cell [OF a2])
  have 7: "servers_at h1 (Some ms) = ?m0" by (rule alloc_servers [OF a1])
  from 1 u03 3 4 5 6 u13 mc mk1 7 show ?thesis by auto
qed

lemma merge_metadata_config_sim:
  assumes r: "merge_metadata clk t h mc sm tm pm = (h', t')"
    and w: "well_typed h" and mk: "is_kind KConfig h mc"
    and s: "ref_ok KMeta h sm" and tg: "ref_ok KMeta h tm"
    and b: "extends h0 h" and f: "length h0 \<le> mc"
  shows "well_typed h' \<and> extends h0 h' \<and> is_kind KConfig h' mc \<and>
     (\<exists>M. config_cell_at h' mc = (config_cell_at h mc)\<lparr>c_metadata := M\<rparr> \<and>
          ref_ok KMeta h' M \<and>
          (meta_at h' M, t') =
            (if pm then mergeMetadata clk t (meta_at h sm) (meta_at h tm)
             else (meta_at h (c_metadata (config_cell_at h mc)), t)))"
proof (cases pm)
  case False
  with r have "h' = h" "t' = t" by (simp_all add: merge_metadata_def)
  moreover have "ref_ok KMeta h (c_metadata (config_cell_at h mc))"
    using typed_config_cell_at [OF w, of mc] by (simp add: typed_config_def)
  moreover have "config_cell_at h mc =
      (config_cell_at h mc)\<lparr>c_metadata := c_metadata (config_cell_at h mc)\<rparr>" by simp
  ultimately show ?thesis using False w b mk by metis
next
  case True
  with r have r': "merge_metadata clk t h mc sm tm True = (h', t')" by simp
  from merge_metadata_prim [OF r' w _ s tg b f] mk
  obtain m where v: "mergeMetadata clk t (meta_at h sm) (meta_at h tm) = (meta_at h' m, t')"
    and rm: "ref_ok KMeta h' m" and n: "h' ! mc = set_metadata m (h ! mc)"
    and w': "well_typed h'" and k: "keeps_leaves h h'" and e: "extends h0 h'"
    by blast
  have mk': "is_kind KConfig h' mc" by (rule is_kind_kinds [OF keeps_leaves_kinds [OF k] mk])
  from n is_config_nth [OF mk]
  have "h' ! mc = HConfig ((config_cell_at h mc)\<lparr>c_metadata := m\<rparr>)" by simp
  moreover from mk' have "mc < length h'" by (simp add: is_kind_def)
  ultimately have "config_cell_at h' mc = (config_cell_at h mc)\<lparr>c_metadata := m\<rparr>"
    by (rule config_cell_at_nth [rotated])
  with v rm w' e mk' True show ?thesis by auto
qed

lemma mergeConfigs_by_loop:
  assumes "merge_loop clk t0 src tgt options = (servers, result2, t2)"
  shows "mergeConfigs validate clk t0 src tgt options =
     (let mergedConfig = tgt\<lparr>mcpServers := servers,
                            version := merged_version (version src) (version tgt),
                            config_metadata := merged_metadata clk t0 src tgt options\<rparr>
      in if validateResult options
         then (case validate mergedConfig of
                 Inl e \<Rightarrow> (result2\<lparr>errors := errors result2 @ [MergeFailed e]\<rparr>, t2)
               | Inr validation \<Rightarrow>
                   (let result3 = (if \<not> isValid validation
                                   then result2\<lparr>errors := errors result2 @ v_errors validation\<rparr>
                                   else result2);
                        result4 = result3\<lparr>warnings := warnings result3 @ v_warnings validation\<rparr>
                    in (result4\<lparr>config := Some mergedConfig,
                                 success := (length (errors result4) = 0)\<rparr>, t2)))
         else (result2\<lparr>config := Some mergedConfig,
                        success := (length (errors result2) = 0)\<rparr>, t2))"
proof -
  obtain mm t1 where m: "(if preserveMetadata options
      then mergeMetadata clk t0 (config_metadata src) (config_metadata tgt)
      else (config_metadata tgt, t0)) = (mm, t1)"
    by (cases "if preserveMetadata options
      then mergeMetadata clk t0 (config_metadata src) (config_metadata tgt)
      else (config_metadata tgt, t0)")
  have mmv: "merged_metadata clk t0 src tgt options = mm"
    by (simp add: merged_metadata_def m)
  from assms have fd: "fold (mergeConfigs_step clk options) (Object_entries (mcpServers src))
       (mcpServers tgt,
        \<lparr>success = False, config = None, conflicts = [], errors = [], warnings = [],
         stats = empty_stats\<lparr>totalServices := length (Object_keys (mcpServers src))\<rparr>\<rparr>,
        t1) = (servers, result2, t2)"
    by (simp add: merge_loop_def m)
  show ?thesis
    by (simp add: mergeConfigs_def Let_def m fd mmv)
qed

lemma finish_merge_view:
  assumes nc: "hr_config r2 = None"
  shows "result_view h (finish_merge validate options h mc r2) =
     (let result2 = result_view h r2; mergedConfig = read_config h mc
      in if validateResult options
         then (case validate mergedConfig of
                 Inl e \<Rightarrow> result2\<lparr>errors := errors result2 @ [MergeFailed e]\<rparr>
               | Inr validation \<Rightarrow>
                   (let result3 = (if \<not> isValid validation
                                   then result2\<lparr>errors := errors result2 @ v_errors validation\<rparr>
                                   else result2);
                        result4 = result3\<lparr>warnings := warnings result3 @ v_warnings validation\<rparr>
                    in result4\<lparr>config := Some mergedConfig,
                                success := (length (errors result4) = 0)\<rparr>))
         else result2\<lparr>config := Some mergedConfig,
                       success := (length (errors result2) = 0)\<rparr>)"
  by (simp add: finish_merge_def result_view_def Let_def nc split: sum.splits)

lemma read_config_services:
  "mcpServers (read_config h a) =
     services_view h (servers_at h (c_mcpServers (config_cell_at h a)))"
  by (simp add: read_config_def services_view_def Let_def)

lemma read_config_fields:
  "version (read_config h a) = c_version (config_cell_at h a)"
  "config_metadata (read_config h a) = meta_at h (c_metadata (config_cell_at h a))"
  "schema (read_config h a) = c_schema (config_cell_at h a)"
  by (simp_all add: read_config_def Let_def)

lemma Object_keys_view: "length (Object_keys (services_view h m)) = length (Object_keys m)"
  by (simp add: Object_keys_def services_view_def)

text \<open>
  On every well-typed store, for every validator, clock, pair of configurations and options,
  the merge on the store and the merge of the values give the same result.
\<close>

lemma mergeConfigs_heap_refines:
  assumes w: "well_typed h"
  shows "models_agree validate clk t h src tgt options"
proof -
  let ?sc = "config_cell_at h src"
  let ?tc = "config_cell_at h tgt"
  let ?srcm = "servers_at h (c_mcpServers ?sc)"
  let ?tm0 = "servers_at h (c_mcpServers ?tc)"
  let ?S = "read_config h src"
  let ?T = "read_config h tgt"
  let ?pm = "preserveMetadata options"
  let ?r0 = "\<lparr>hr_success = False, hr_config = None, hr_conflicts = [],
               hr_errors = [], hr_warnings = [],
               hr_stats = empty_stats\<lparr>totalServices := length (Object_keys ?srcm)\<rparr>\<rparr>"
  obtain ms mc h3 where ct: "copy_target h ?sc ?tc = (ms, mc, h3)" by (metis prod_cases3)
  obtain h5 t1 where mm: "merge_metadata clk t h3 mc (c_metadata ?sc) (c_metadata ?tc) ?pm =
      (h5, t1)" by (cases "merge_metadata clk t h3 mc (c_metadata ?sc) (c_metadata ?tc) ?pm")
  obtain h6 r2 t2 where fd: "fold (mergeConfigs_step_heap clk options ms) ?srcm (h5, ?r0, t1) =
      (h6, r2, t2)" by (metis prod_cases3)
  have res: "mergeConfigs_heap validate clk t h src tgt options =
      (finish_merge validate options h6 mc r2, h6, t2)"
    by (simp add: mergeConfigs_heap_def Let_def ct mm fd Object_entries_def)
  have tsc: "typed_config h ?sc" and ttc: "typed_config h ?tc"
    by (rule typed_config_cell_at [OF w])+
  from copy_target_sim [OF ct w ttc]
  obtain h1 where w3: "well_typed h3" and u03: "unchanged h h3"
    and mk3: "is_kind KServers h3 ms" and ck3: "is_kind KConfig h3 mc" and f: "length h \<le> mc"
    and cc3: "config_cell_at h3 mc =
       ?tc\<lparr>c_mcpServers := Some ms, c_version := merged_version (c_version ?sc) (c_version ?tc)\<rparr>"
    and u13: "unchanged h1 h3" and l1: "length h1 \<le> mc" and mk1: "is_kind KServers h1 ms"
    and m1: "servers_at h1 (Some ms) = ?tm0"
    by blast
  have e03: "extends h h3" by (rule unchanged_extends [OF u03])
  have k03: "same_kinds h h3" by (rule extends_same_kinds [OF e03])
  have s0: "ref_ok KMeta h (c_metadata ?sc)" and t0: "ref_ok KMeta h (c_metadata ?tc)"
    using tsc ttc by (simp_all add: typed_config_def)
  have s3: "ref_ok KMeta h3 (c_metadata ?sc)" and t3: "ref_ok KMeta h3 (c_metadata ?tc)"
    by (rule ref_ok_kinds [OF k03 s0], rule ref_ok_kinds [OF k03 t0])
  from merge_metadata_config_sim [OF mm w3 ck3 s3 t3 e03 f]
  obtain M where w5: "well_typed h5" and e05: "extends h h5" and ck5: "is_kind KConfig h5 mc"
    and cc5: "config_cell_at h5 mc = (config_cell_at h3 mc)\<lparr>c_metadata := M\<rparr>"
    and rM: "ref_ok KMeta h5 M"
    and mv: "(meta_at h5 M, t1) =
            (if ?pm then mergeMetadata clk t (meta_at h3 (c_metadata ?sc))
                           (meta_at h3 (c_metadata ?tc))
             else (meta_at h3 (c_metadata (config_cell_at h3 mc)), t))"
    by blast
  have u15: "unchanged h1 h5" by (rule merge_metadata_frame [OF mm u13 l1])
  have mk5: "is_kind KServers h5 ms" by (rule is_kind_extends [OF unchanged_extends [OF u15] mk1])
  have m5: "servers_at h5 (Some ms) = ?tm0"
    using servers_at_unchanged [OF u15 mk1] m1 by simp
  have ms3: "meta_at h3 (c_metadata ?sc) = meta_at h (c_metadata ?sc)"
    by (rule meta_at_extends [OF e03 s0])
  have mt3: "meta_at h3 (c_metadata ?tc) = meta_at h (c_metadata ?tc)"
    by (rule meta_at_extends [OF e03 t0])
  have mv': "(if ?pm then mergeMetadata clk t (config_metadata ?S) (config_metadata ?T)
              else (config_metadata ?T, t)) = (meta_at h5 M, t1)"
    using mv by (simp add: read_config_fields ms3 mt3 cc3)
  have ts: "typed_servers h ?srcm" and tt: "typed_servers h ?tm0"
    by (rule typed_servers_at [OF w])+
  have ts5: "typed_servers h5 ?srcm"
    by (rule typed_servers_kinds [OF extends_same_kinds [OF e05] ts])
  from fold_step_heap_sim [OF fd w5 mk5 ts5]
  have fv: "fold (mergeConfigs_step clk options) (services_view h5 ?srcm)
           (services_view h5 (servers_at h5 (Some ms)), result_view h5 ?r0, t1) =
           (services_view h6 (servers_at h6 (Some ms)), result_view h6 r2, t2)"
    and e56: "extends h5 h6" and w6: "well_typed h6" and mk6: "is_kind KServers h6 ms"
    and nc2: "hr_config r2 = None"
    by simp_all
  have sv5: "services_view h5 ?srcm = services_view h ?srcm"
    by (rule services_view_extends [OF e05 w ts])
  have tv5: "services_view h5 ?tm0 = services_view h ?tm0"
    by (rule services_view_extends [OF e05 w tt])
  have ml: "merge_loop clk t ?S ?T options =
      (services_view h6 (servers_at h6 (Some ms)), result_view h6 r2, t2)"
    using fv
    by (simp add: merge_loop_def mv' read_config_services Object_entries_def Object_keys_view
          sv5 tv5 m5 result_view_def)
  have mmeta: "merged_metadata clk t ?S ?T options = meta_at h5 M"
    by (simp add: merged_metadata_def mv')
  have cc6: "config_cell_at h6 mc = config_cell_at h5 mc"
    by (rule config_cell_at_extends [OF e56 ck5])
  have m6: "meta_at h6 M = meta_at h5 M" by (rule meta_at_extends [OF e56 rM])
  have rc: "read_config h6 mc =
      ?T\<lparr>mcpServers := services_view h6 (servers_at h6 (Some ms)),
          version := merged_version (version ?S) (version ?T),
          config_metadata := merged_metadata clk t ?S ?T options\<rparr>"
  proof (rule MCPConfig.equality)
    show "mcpServers (read_config h6 mc) =
        mcpServers (?T\<lparr>mcpServers := services_view h6 (servers_at h6 (Some ms)),
          version := merged_version (version ?S) (version ?T),
          config_metadata := merged_metadata clk t ?S ?T options\<rparr>)"
      by (simp add: read_config_services cc6 cc5 cc3)
    show "version (read_config h6 mc) =
        version (?T\<lparr>mcpServers := services_view h6 (servers_at h6 (Some ms)),
          version := merged_version (version ?S) (version ?T),
          config_metadata := merged_metadata clk t ?S ?T options\<rparr>)"
      by (simp add: read_config_fields cc6 cc5 cc3)
    show "config_metadata (read_config h6 mc) =
        config_metadata (?T\<lparr>mcpServers := services_view h6 (servers_at h6 (Some ms)),
          version := merged_version (version ?S) (version ?T),
          config_metadata := merged_metadata clk t ?S ?T options\<rparr>)"
      by (simp add: read_config_fields cc6 cc5 cc3 m6 mmeta)
    show "schema (read_config h6 mc) =
        schema (?T\<lparr>mcpServers := services_view h6 (servers_at h6 (Some ms)),
          version := merged_version (version ?S) (version ?T),
          config_metadata := merged_metadata clk t ?S ?T options\<rparr>)"
      by (simp add: read_config_fields cc6 cc5 cc3)
  qed simp
  have "(result_view h6 (finish_merge validate options h6 mc r2), t2) =
      mergeConfigs validate clk t ?S ?T options"
    by (simp add: mergeConfigs_by_loop [OF ml] finish_merge_view [OF nc2] rc Let_def
          split: sum.splits)
  with res show ?thesis by (simp add: models_agree_def)
qed

text \<open>
  The stores of the examples are well typed, and the two models agree on them under every
  strategy, by evaluation.
\<close>

lemma example_heaps_well_typed: "well_typed example_heap \<and> well_typed rich_heap"
  by code_simp

lemma heap_merge_agrees_examples:
  "list_all (\<lambda>st. models_agree validateConfig example_clock 0 rich_heap 13 6 (options_with st True True) \<and>
                   models_agree validateConfig example_clock 0 rich_heap 13 6 (options_with st False False) \<and>
                   models_agree validateConfig example_clock 0 rich_heap 6 13 (options_with st True False) \<and>
                   models_agree validateConfig example_clock 0 example_heap 9 3 (options_with st False True) \<and>
                   models_agree validateConfig example_clock 0 example_heap 3 9 (options_with st True True))
     [OVERWRITE, SKIP, MERGE, PROMPT]"
  by code_simp

section \<open>What the outputs share with the inputs\<close>





















end
